theory Spec2Isabelle
  imports Complex_Main "HOL-Library.Multiset"
begin

section \<open>The compressed quadtree of \<open>compressed_quadtree.h\<close>\<close>

text \<open>
  The template class \<open>CompressedQuadtree<Point>\<close> builds a \<open>2^dim\<close>-ary tree over an array
  of points and answers approximate k-nearest-neighbour queries on it.

  Conventions of the embedding:
  \<^item> a \<open>double\<close> is a real number: arithmetic is exact, there is no rounding, no infinity
    and no NaN. \<open>std::numeric_limits<double>::max()\<close> is the constant \<open>DBL_MAX\<close>.
    The rounding of the program is therefore not in the model. Where a property needs a
    sum or a difference to be exact, this is said: that the region of a node contains the
    points stored below it is proved in exact arithmetic only, and is a hypothesis on the
    tree wherever a property of the query needs it;
  \<^item> a \<open>Point\<close> is the list of its coordinates, \<open>p[d]\<close> is \<open>p ! d\<close>;
  \<^item> a \<open>Point *\<close> held by the tree is the index of the point in the caller's array
    \<open>pts\<close>, which every function that reads coordinates through it receives;
  \<^item> a nullable pointer is an \<open>option\<close>;
  \<^item> \<open>size_t\<close> values are natural numbers (\<open>1 << dim\<close> is \<open>2 ^ dim\<close>: the
    embedding is about dimension counts for which the shift does not overflow).
\<close>

type_synonym Point = "real list"

text \<open>\<open>struct Node\<close>: the child array, the midpoint, the half side length, the stored point.\<close>

datatype Node =
  Node (nodes: "Node option list option") (mid: Point) (radius: real) (pt: "nat option")

datatype error = NullPointer | EmptyResult

definition DBL_MAX :: real where
  "DBL_MAX = (2 - 1 / 2 ^ 52) * 2 ^ 1023"

definition locate_eps :: real where
  "locate_eps = 1 / 1000"

text \<open>\<open>Node::in_node\<close>: the loop leaves with \<open>false\<close> at the first dimension out of tolerance.\<close>

definition in_node :: "Node \<Rightarrow> Point \<Rightarrow> nat \<Rightarrow> bool" where
  "in_node node p dm =
     list_all (\<lambda>d. \<not> (mid node ! d - radius node - p ! d > locate_eps
                     \<or> p ! d - mid node ! d - radius node > locate_eps)) [0..<dm]"

subsection \<open>Construction\<close>

text \<open>
  The constructor's first loop. \<open>range\<close> is a \<open>double *\<close>; the model gives it a length and
  a read past its end (undefined in C++) makes the construction fail with \<open>None\<close>.
  The loop reads \<open>range[d*dim]\<close> and \<open>range[d*dim + 1]\<close>.
\<close>

definition range_at :: "real list \<Rightarrow> nat \<Rightarrow> real option" where
  "range_at rng i = (if i < length rng then Some (rng ! i) else None)"

fun root_region_loop :: "nat \<Rightarrow> real list \<Rightarrow> nat list \<Rightarrow> Point \<times> real \<Rightarrow> (Point \<times> real) option" where
  "root_region_loop dm rng [] (m, rad) = Some (m, rad)"
| "root_region_loop dm rng (d # ds) (m, rad) =
     (case (range_at rng (d * dm), range_at rng (d * dm + 1)) of
        (Some lo, Some hi) \<Rightarrow>
          (let side = (hi - lo) / 2
           in root_region_loop dm rng ds (m @ [(lo + hi) / 2], if side > rad then side else rad))
      | _ \<Rightarrow> None)"

definition root_region :: "nat \<Rightarrow> real list \<Rightarrow> (Point \<times> real) option" where
  "root_region dm rng = root_region_loop dm rng [0..<dm] ([], 0)"

text \<open>
  The orthant index of a point around a midpoint: bit \<open>d\<close> is set when the coordinate
  exceeds the midpoint's (\<open>n += 1 << d\<close>).
\<close>

definition orthant_index :: "nat \<Rightarrow> Point \<Rightarrow> Point \<Rightarrow> nat" where
  "orthant_index dm m p = foldl (\<lambda>n d. if p ! d > m ! d then n + 2 ^ d else n) 0 [0..<dm]"

text \<open>
  \<open>node_pts[n]\<close>: the points of \<open>pts\<close> whose orthant index is \<open>n\<close>, in the order of
  \<open>pts\<close> (each is pushed to the back of its bucket).
\<close>

definition node_pts :: "nat \<Rightarrow> Point list \<Rightarrow> Point \<Rightarrow> nat list \<Rightarrow> nat \<Rightarrow> nat list" where
  "node_pts dm P m pts n = filter (\<lambda>i. orthant_index dm m (P ! i) = n) pts"

text \<open>
  \<open>new_mid\<close>: the midpoint of orthant \<open>n\<close>; \<open>n & (1 << d)\<close> tests bit \<open>d\<close> of \<open>n\<close>.
  The sum and the difference are exact here; the program rounds them to a \<open>double\<close>.
\<close>

definition new_mid :: "nat \<Rightarrow> Point \<Rightarrow> real \<Rightarrow> nat \<Rightarrow> Point" where
  "new_mid dm m new_radius n =
     map (\<lambda>d. if bit n d then m ! d + new_radius else m ! d - new_radius) [0..<dm]"

text \<open>The present children of a node, in slot order.\<close>

definition children :: "Node \<Rightarrow> Node list" where
  "children node = (case nodes node of None \<Rightarrow> [] | Some slots \<Rightarrow> List.map_filter (\<lambda>s. s) slots)"

text \<open>
  The compression at the end of \<open>worker\<close>: with fewer than two non-empty buckets the node
  is replaced by its first present child (and stays as it is when it has none).
\<close>

definition compress :: "Node \<Rightarrow> nat \<Rightarrow> Node" where
  "compress node ninteresting =
     (if ninteresting < 2 then (case children node of [] \<Rightarrow> node | c # _ \<Rightarrow> c) else node)"

text \<open>The first loop of \<open>worker\<close> copies the coordinates of the midpoint into the node.\<close>

definition copy_mid :: "nat \<Rightarrow> Point \<Rightarrow> Point" where
  "copy_mid dm m = map (\<lambda>d. m ! d) [0..<dm]"

text \<open>
  \<open>worker\<close>. The C++ recursion has no bound (coincident points never separate), so the model
  takes a recursion budget and returns \<open>None\<close> when it is used up. \<open>fn\<close> is the
  \<open>EndBuildFn\<close>, taken as a pure predicate; the call on a leaf, whose result the code
  drops, is left out. A slot of \<open>results\<close> is \<open>Some None\<close> for an empty bucket and
  \<open>Some (Some c)\<close> for the child built from a non-empty one.
\<close>

fun worker :: "nat \<Rightarrow> Point list \<Rightarrow> (Node \<Rightarrow> nat \<Rightarrow> bool) \<Rightarrow> nat \<Rightarrow> Point \<Rightarrow> real \<Rightarrow> nat list \<Rightarrow> nat
    \<Rightarrow> Node option" where
  "worker dm P fn 0 m rad pts depth = None"
| "worker dm P fn (Suc fuel) m rad pts depth =
     (let node = Node None (copy_mid dm m) rad None in
      if length pts = 1 then Some (Node None (mid node) rad (Some (pts ! 0)))
      else if fn node depth then Some node
      else
        (let new_radius = rad / 2;
             results = map (\<lambda>n. if node_pts dm P m pts n \<noteq> []
                                then map_option Some
                                       (worker dm P fn fuel (new_mid dm m new_radius n) new_radius
                                          (node_pts dm P m pts n) (depth + 1))
                                else Some None) [0..<2 ^ dm];
             ninteresting = length (filter (\<lambda>n. node_pts dm P m pts n \<noteq> []) [0..<2 ^ dm])
         in case those results of
              None \<Rightarrow> None
            | Some slots \<Rightarrow> Some (compress (Node (Some slots) (mid node) rad None) ninteresting)))"

text \<open>The default \<open>EndBuildFn\<close> never stops the construction.\<close>

definition EndBuildFn :: "Node \<Rightarrow> nat \<Rightarrow> bool" where
  "EndBuildFn node depth = False"

text \<open>The constructor: the root region, the vector of all point pointers, the root.\<close>

definition CompressedQuadtree :: "nat \<Rightarrow> Point list \<Rightarrow> real list \<Rightarrow> (Node \<Rightarrow> nat \<Rightarrow> bool) \<Rightarrow> nat
    \<Rightarrow> Node option" where
  "CompressedQuadtree dm P rng fn fuel =
     (case root_region dm rng of
        None \<Rightarrow> None
      | Some (m, rad) \<Rightarrow> worker dm P fn fuel m rad [0..<length P] 0)"

subsection \<open>Query\<close>

text \<open>
  \<open>min_pt_dist_to_node\<close>. The local \<open>dist\<close> is declared without a value in each iteration
  and is assigned only when the coordinate is outside the region; the comparison after it
  reads it in every iteration. The value read when neither branch assigned it is not
  determined by the program: the model takes it from the parameter \<open>indet\<close>.
\<close>

fun min_pt_dist_step :: "(nat \<Rightarrow> real) \<Rightarrow> Point \<Rightarrow> Node \<Rightarrow> bool \<times> real \<Rightarrow> nat \<Rightarrow> bool \<times> real" where
  "min_pt_dist_step indet p node (inside, min_dist) d =
     (let (dist, inside') =
            (if p ! d < mid node ! d - radius node
               then (mid node ! d - radius node - p ! d, False)
             else if p ! d > mid node ! d + radius node
               then (p ! d - (mid node ! d + radius node), False)
             else (indet d, inside))
      in (inside', if dist < min_dist then dist else min_dist))"

definition min_pt_dist_to_node :: "(nat \<Rightarrow> real) \<Rightarrow> nat \<Rightarrow> Point \<Rightarrow> Node \<Rightarrow> real" where
  "min_pt_dist_to_node indet dm p node =
     (let (inside, min_dist) = foldl (min_pt_dist_step indet p node) (True, DBL_MAX) [0..<dm]
      in if inside then 0 else min_dist * min_dist)"

text \<open>The squared distance computed in the leaf branch of \<open>knn\<close>.\<close>

definition sq_dist :: "nat \<Rightarrow> Point \<Rightarrow> Point \<Rightarrow> real" where
  "sq_dist dm a p = foldl (\<lambda>dist d. dist + (a ! d - p ! d) * (a ! d - p ! d)) 0 [0..<dm]"

text \<open>The insertion into the result list: before the first entry that is not closer.\<close>

fun qr_insert :: "nat \<times> real \<Rightarrow> (nat \<times> real) list \<Rightarrow> (nat \<times> real) list" where
  "qr_insert e [] = [e]"
| "qr_insert e (x # xs) = (if snd x < snd e then x # qr_insert e xs else e # x # xs)"

text \<open>
  The priority queue is a vector kept as a heap under \<open>NodeDistance::operator<\<close>, which
  orders by greater distance: \<open>pop_heap\<close> with \<open>back\<close> and \<open>pop_back\<close> removes an entry of
  least distance. Which one of several entries of the same least distance comes out is
  left open by the standard; the model takes the one pushed first.
\<close>

definition pq_top :: "(Node \<times> real) list \<Rightarrow> Node \<times> real" where
  "pq_top pq = arg_min_list snd pq"

definition pq_pop :: "(Node \<times> real) list \<Rightarrow> (Node \<times> real) list" where
  "pq_pop pq = remove1 (pq_top pq) pq"

text \<open>
  The loop of \<open>knn\<close>, from a queue and a result list. It returns \<open>None\<close> when it runs
  forever, \<open>Some (Inl e)\<close> when it goes wrong: the leaf branch follows a null \<open>pt\<close>, or the
  internal branch takes \<open>qr.back()\<close> of an empty list (with \<open>k = 0\<close>).
  The array of an internal node holds \<open>nnodes\<close> slots, which the loop over \<open>n\<close> visits in
  order: \<open>push_children\<close> appends the present children whose bound is below the k-th
  distance. \<open>qr_add\<close> is the insertion followed by \<open>if (qr.size() > k) qr.pop_back()\<close>,
  \<open>kth_dist\<close> the k-th distance of the internal branch.
\<close>

definition qr_add :: "nat \<Rightarrow> nat \<times> real \<Rightarrow> (nat \<times> real) list \<Rightarrow> (nat \<times> real) list" where
  "qr_add k e qr = (let qr' = qr_insert e qr in if length qr' > k then butlast qr' else qr')"

definition kth_dist :: "nat \<Rightarrow> (nat \<times> real) list \<Rightarrow> real" where
  "kth_dist k qr = (if length qr < k then DBL_MAX else snd (last qr))"

definition push_children ::
    "(Node \<Rightarrow> nat \<Rightarrow> real) \<Rightarrow> nat \<Rightarrow> Point \<Rightarrow> real \<Rightarrow> Node \<Rightarrow> (Node \<times> real) list" where
  "push_children indet dm p kth node =
     filter (\<lambda>e. snd e < kth)
       (map (\<lambda>c. (c, min_pt_dist_to_node (indet c) dm p c)) (children node))"

partial_function (option) knn_loop ::
    "(Node \<Rightarrow> nat \<Rightarrow> real) \<Rightarrow> nat \<Rightarrow> Point list \<Rightarrow> nat \<Rightarrow> Point \<Rightarrow> real
      \<Rightarrow> (Node \<times> real) list \<Rightarrow> (nat \<times> real) list \<Rightarrow> (error + (nat \<times> real) list) option" where
  "knn_loop indet dm P k p eps pq qr =
     (if pq = [] then Some (Inr qr)
      else
        (let node = fst (pq_top pq); node_dist = snd (pq_top pq); pq' = pq_pop pq in
         if nodes node = None then
           (case pt node of
              None \<Rightarrow> Some (Inl NullPointer)
            | Some i \<Rightarrow> knn_loop indet dm P k p eps pq' (qr_add k (i, sq_dist dm (P ! i) p) qr))
         else if \<not> length qr < k \<and> qr = [] then Some (Inl EmptyResult)
         else if kth_dist k qr \<le> (1 + eps) * node_dist then Some (Inr qr)
         else knn_loop indet dm P k p eps (pq' @ push_children indet dm p (kth_dist k qr) node) qr))"

declare knn_loop.simps [code]

definition knn :: "(Node \<Rightarrow> nat \<Rightarrow> real) \<Rightarrow> nat \<Rightarrow> Point list \<Rightarrow> Node \<Rightarrow> nat \<Rightarrow> Point \<Rightarrow> real
    \<Rightarrow> (error + (nat \<times> real) list) option" where
  "knn indet dm P rt k p eps = knn_loop indet dm P k p eps [(rt, 0)] []"

subsection \<open>Notions used to state the properties\<close>

text \<open>
  The nodes of a tree, the root first, and the points its leaves hold. A leaf is a node
  without child array (the test \<open>node->nodes == 0\<close> of \<open>knn\<close>).
\<close>

function subnodes :: "Node \<Rightarrow> Node list" where
  "subnodes node = node # concat (map subnodes (children node))"
  by pat_completeness auto
termination
proof (relation "measure size")
  show "wf (measure size)" by simp
next
  fix node c :: Node
  assume c: "c \<in> set (children node)"
  show "(c, node) \<in> measure size"
  proof (cases node)
    case (Node ns m r p)
    show ?thesis
    proof (cases ns)
      case None
      with c Node show ?thesis by (simp add: children_def)
    next
      case (Some slots)
      with c Node have "Some c \<in> set slots"
        by (auto simp: children_def List.map_filter_def)
      then have "size c < Suc (size_list (size_option size) slots)"
        by (induction slots) auto
      with Node Some show ?thesis by simp
    qed
  qed
qed

declare subnodes.simps [simp del]

definition leaves :: "Node \<Rightarrow> nat list" where
  "leaves t = List.map_filter (\<lambda>node. if nodes node = None then pt node else None) (subnodes t)"

text \<open>
  A coordinate is outside a node's region on dimension \<open>d\<close> when one of the two tests of
  \<open>min_pt_dist_to_node\<close> holds; its gap is the distance the matching branch assigns.
  \<open>read_dist\<close> is the value the comparison reads in iteration \<open>d\<close>.
\<close>

definition outside :: "Node \<Rightarrow> Point \<Rightarrow> nat \<Rightarrow> bool" where
  "outside node p d = (p ! d < mid node ! d - radius node \<or> p ! d > mid node ! d + radius node)"

definition gap :: "Node \<Rightarrow> Point \<Rightarrow> nat \<Rightarrow> real" where
  "gap node p d =
     (if p ! d < mid node ! d - radius node then mid node ! d - radius node - p ! d
      else p ! d - (mid node ! d + radius node))"

definition read_dist :: "(nat \<Rightarrow> real) \<Rightarrow> Node \<Rightarrow> Point \<Rightarrow> nat \<Rightarrow> real" where
  "read_dist indet node p d = (if outside node p d then gap node p d else indet d)"

text \<open>A point lies in the closed hypercube with centre \<open>m\<close> and half side length \<open>rad\<close>.\<close>

definition in_region :: "nat \<Rightarrow> Point \<Rightarrow> Point \<Rightarrow> real \<Rightarrow> bool" where
  "in_region dm x m rad = (\<forall>d<dm. m ! d - rad \<le> x ! d \<and> x ! d \<le> m ! d + rad)"


text \<open>
  The brute-force scan of the spec: the points, as indices into the array, ordered by
  squared distance to the query point, and the first \<open>k\<close> of them.
\<close>

definition brute_force_knn :: "nat \<Rightarrow> Point list \<Rightarrow> nat \<Rightarrow> Point \<Rightarrow> nat list" where
  "brute_force_knn dm P k q = take k (sort_key (\<lambda>i. sq_dist dm (P ! i) q) [0..<length P])"

text \<open>The measure that decreases in the loop of \<open>knn\<close>: the nodes below the queue entries.\<close>

definition pq_size :: "(Node \<times> real) list \<Rightarrow> nat" where
  "pq_size pq = sum_list (map (\<lambda>e. size (fst e)) pq)"

text \<open>The number of points below the queue entries.\<close>

definition pq_leaves :: "(Node \<times> real) list \<Rightarrow> nat" where
  "pq_leaves pq = sum_list (map (\<lambda>e. length (leaves (fst e))) pq)"

text \<open>
  A small tree for the examples: the points 1, 2 and 7 on a line, with the range \<open>[0, 8]\<close>.
  The left half \<open>[0, 4]\<close> of the root holds 1 and 2, which both fall into its left half
  \<open>[0, 2]\<close>: the node for \<open>[0, 4]\<close> is compressed away.
\<close>

definition ex_pts :: "Point list" where
  "ex_pts = [[1], [2], [7]]"

definition ex_tree :: Node where
  "ex_tree =
     Node (Some [Some (Node (Some [Some (Node None [1 / 2] (1 / 2) (Some 0)),
                                   Some (Node None [3 / 2] (1 / 2) (Some 1))]) [1] 1 None),
                 Some (Node None [6] 2 (Some 2))]) [4] 4 None"

text \<open>
  A tree in the plane: the points (1, 1), (3, 3) and (1, 3) in the square \<open>[0, 4] \<times> [0, 4]\<close>.
  Orthant 1 of the root is empty.
\<close>

definition ex2_pts :: "Point list" where
  "ex2_pts = [[1, 1], [3, 3], [1, 3]]"

definition ex2_tree :: Node where
  "ex2_tree =
     Node (Some [Some (Node None [1, 1] 1 (Some 0)), None,
                 Some (Node None [1, 3] 1 (Some 2)), Some (Node None [3, 3] 1 (Some 1))]) [2, 2] 2 None"

section \<open>The lower bound \<open>min_pt_dist_to_node\<close>\<close>

lemma upt_0_2: "[0..<2] = [0, Suc 0]"
  by (simp add: numeral_2_eq_2)

lemma min_pt_dist_step_eq:
  "min_pt_dist_step indet p node (inside, min_dist) d =
     (inside \<and> \<not> outside node p d, min (read_dist indet node p d) min_dist)"
  by (auto simp: outside_def gap_def read_dist_def min_def)

lemma min_pt_dist_fold:
  "foldl (min_pt_dist_step indet p node) (True, DBL_MAX) [0..<n] =
     ((\<forall>d<n. \<not> outside node p d), Min (insert DBL_MAX (read_dist indet node p ` {..<n})))"
proof (induction n)
  case 0
  show ?case by simp
next
  case (Suc n)
  let ?A = "\<forall>d<n. \<not> outside node p d"
  let ?M = "Min (insert DBL_MAX (read_dist indet node p ` {..<n}))"
  have s: "insert DBL_MAX (read_dist indet node p ` {..<Suc n}) =
        insert (read_dist indet node p n) (insert DBL_MAX (read_dist indet node p ` {..<n}))"
    by (auto simp: lessThan_Suc)
  have m: "Min (insert DBL_MAX (read_dist indet node p ` {..<Suc n})) = min (read_dist indet node p n) ?M"
    unfolding s by (rule Min_insert) simp_all
  have a: "(\<forall>d<Suc n. \<not> outside node p d) = (?A \<and> \<not> outside node p n)"
    by (auto simp: less_Suc_eq)
  have "foldl (min_pt_dist_step indet p node) (True, DBL_MAX) [0..<Suc n] =
        min_pt_dist_step indet p node (?A, ?M) n"
    using Suc by simp
  also have "\<dots> = (?A \<and> \<not> outside node p n, min (read_dist indet node p n) ?M)"
    by (rule min_pt_dist_step_eq)
  finally show ?case
    unfolding m a .
qed

lemma min_pt_dist_to_node_eq:
  "min_pt_dist_to_node indet dm p node =
     (if \<forall>d<dm. \<not> outside node p d then 0
      else (Min (insert DBL_MAX (read_dist indet node p ` {..<dm})))\<^sup>2)"
  by (auto simp: min_pt_dist_to_node_def min_pt_dist_fold power2_eq_square)

text \<open>
  C3, as the code has it. When the query coordinate is inside the region on every dimension
  the result is 0. When it is outside on every dimension the result is the square of the
  \<^emph>\<open>smallest\<close> per-dimension gap: the running value starts at \<open>DBL_MAX\<close> and is
  replaced by every smaller gap. (When the point is outside on some dimensions only, the
  comparison also reads the unassigned local.)
\<close>

theorem min_pt_dist_to_node_smallest_gap:
  "((\<forall>d<dm. \<not> outside node p d) \<longrightarrow> min_pt_dist_to_node indet dm p node = 0) \<and>
   (0 < dm \<and> (\<forall>d<dm. outside node p d) \<longrightarrow>
      min_pt_dist_to_node indet dm p node = (Min (insert DBL_MAX (gap node p ` {..<dm})))\<^sup>2)"
proof (intro conjI impI)
  assume "\<forall>d<dm. \<not> outside node p d"
  then show "min_pt_dist_to_node indet dm p node = 0"
    by (simp add: min_pt_dist_to_node_eq)
next
  assume a: "0 < dm \<and> (\<forall>d<dm. outside node p d)"
  then have "read_dist indet node p ` {..<dm} = gap node p ` {..<dm}"
    by (auto simp: read_dist_def)
  moreover from a have "\<not> (\<forall>d<dm. \<not> outside node p d)"
    by blast
  ultimately show "min_pt_dist_to_node indet dm p node = (Min (insert DBL_MAX (gap node p ` {..<dm})))\<^sup>2"
    unfolding min_pt_dist_to_node_eq by (simp only: if_False)
qed

theorem min_pt_dist_to_node_smallest_gap_witness:
  "min_pt_dist_to_node (\<lambda>d. 0) 2 [1 / 2, 0] (Node None [0, 0] 1 None) = 0 \<and>
   min_pt_dist_to_node (\<lambda>d. 0) 2 [3, 5] (Node None [0, 0] 1 None) = 2\<^sup>2"
proof -
  let ?n = "Node None [0, 0] 1 None"
  have a: "\<forall>d<2. \<not> outside ?n [1 / 2, 0] d"
    by (simp add: outside_def less_Suc_eq numeral_2_eq_2)
  have b: "0 < (2::nat) \<and> (\<forall>d<2. outside ?n [3, 5] d)"
    by (simp add: outside_def less_Suc_eq numeral_2_eq_2)
  have c: "Min (insert DBL_MAX (gap ?n [3, 5] ` {..<2})) = 2"
    by (simp add: gap_def lessThan_Suc numeral_2_eq_2 DBL_MAX_def)
  from min_pt_dist_to_node_smallest_gap [of 2 ?n "[1 / 2, 0]" "\<lambda>d. 0"] a
       min_pt_dist_to_node_smallest_gap [of 2 ?n "[3, 5]" "\<lambda>d. 0"] b c
  show ?thesis by simp
qed

text \<open>
  The claim's "largest gap" fails: outside on both dimensions with gaps 2 and 4, the code
  returns \<open>2\<^sup>2\<close>, the largest gap squared is 16.
\<close>

theorem min_pt_dist_to_node_not_largest_gap:
  "outside (Node None [0, 0] 1 None) [3, 5] 0 \<and> outside (Node None [0, 0] 1 None) [3, 5] 1 \<and>
   (Max (gap (Node None [0, 0] 1 None) [3, 5] ` {..<2}))\<^sup>2 = 16 \<and>
   min_pt_dist_to_node (\<lambda>d. 0) 2 [3, 5] (Node None [0, 0] 1 None) = 4"
  by (simp add: min_pt_dist_to_node_def outside_def gap_def DBL_MAX_def upt_0_2 lessThan_Suc numeral_2_eq_2)

section \<open>The shape of built trees\<close>

lemma children_Node [simp]:
  "children (Node None m r p) = []"
  "children (Node (Some slots) m r p) = List.map_filter (\<lambda>s. s) slots"
  by (simp_all add: children_def)

lemma set_children_Some [simp]: "set (children (Node (Some slots) m r p)) = {c. Some c \<in> set slots}"
  by (force simp: List.map_filter_def image_iff)

lemma those_eq_Some: "those xs = Some ys \<longleftrightarrow> xs = map Some ys"
  by (induction xs arbitrary: ys) (auto split: option.splits)

lemma orthant_index_Suc:
  "orthant_index (Suc dm) m p = orthant_index dm m p + (if p ! dm > m ! dm then 2 ^ dm else 0)"
  by (simp add: orthant_index_def)

lemma orthant_index_less: "orthant_index dm m p < 2 ^ dm"
  by (induction dm) (auto simp: orthant_index_Suc, simp add: orthant_index_def)

lemma worker_Suc:
  "worker dm P fn (Suc fuel) m rad pts depth =
     (if length pts = 1 then Some (Node None (copy_mid dm m) rad (Some (pts ! 0)))
      else if fn (Node None (copy_mid dm m) rad None) depth then Some (Node None (copy_mid dm m) rad None)
      else case those (map (\<lambda>n. if node_pts dm P m pts n \<noteq> []
                  then map_option Some
                         (worker dm P fn fuel (new_mid dm m (rad / 2) n) (rad / 2)
                            (node_pts dm P m pts n) (depth + 1))
                  else Some None) [0..<2 ^ dm]) of
             None \<Rightarrow> None
           | Some slots \<Rightarrow> Some (compress (Node (Some slots) (copy_mid dm m) rad None)
                (length (filter (\<lambda>n. node_pts dm P m pts n \<noteq> []) [0..<2 ^ dm]))))"
  by (simp add: Let_def cong: option.case_cong)

declare worker.simps(2) [simp del]

lemma worker_Suc_Some:
  assumes "worker dm P fn (Suc fuel) m rad pts depth = Some t"
  obtains (leaf) "length pts = 1" "t = Node None (copy_mid dm m) rad (Some (pts ! 0))"
  | (stop) "length pts \<noteq> 1" "fn (Node None (copy_mid dm m) rad None) depth"
      "t = Node None (copy_mid dm m) rad None"
  | (split) slots where "length pts \<noteq> 1" "\<not> fn (Node None (copy_mid dm m) rad None) depth"
      "length slots = 2 ^ dm"
      "\<And>n. n < 2 ^ dm \<Longrightarrow> node_pts dm P m pts n = [] \<Longrightarrow> slots ! n = None"
      "\<And>n. n < 2 ^ dm \<Longrightarrow> node_pts dm P m pts n \<noteq> [] \<Longrightarrow>
         \<exists>c. slots ! n = Some c \<and>
             worker dm P fn fuel (new_mid dm m (rad / 2) n) (rad / 2) (node_pts dm P m pts n) (depth + 1) = Some c"
      "t = compress (Node (Some slots) (copy_mid dm m) rad None)
             (length (filter (\<lambda>n. node_pts dm P m pts n \<noteq> []) [0..<2 ^ dm]))"
proof (cases "length pts = 1")
  case True
  then have "worker dm P fn (Suc fuel) m rad pts depth = Some (Node None (copy_mid dm m) rad (Some (pts ! 0)))"
    unfolding worker_Suc by (rule if_P)
  with assms have "t = Node None (copy_mid dm m) rad (Some (pts ! 0))" by simp
  with True leaf show ?thesis by blast
next
  case False
  note np = this
  show ?thesis
  proof (cases "fn (Node None (copy_mid dm m) rad None) depth")
    case True
    then have "worker dm P fn (Suc fuel) m rad pts depth = Some (Node None (copy_mid dm m) rad None)"
      unfolding worker_Suc by (simp only: if_not_P[OF np] if_P)
    with assms have "t = Node None (copy_mid dm m) rad None" by simp
    with True np stop show ?thesis by blast
  next
    case False
    let ?f = "\<lambda>n. if node_pts dm P m pts n \<noteq> []
                  then map_option Some
                         (worker dm P fn fuel (new_mid dm m (rad / 2) n) (rad / 2)
                            (node_pts dm P m pts n) (depth + 1))
                  else Some None"
    have "worker dm P fn (Suc fuel) m rad pts depth = (case those (map ?f [0..<2 ^ dm]) of
             None \<Rightarrow> None
           | Some slots \<Rightarrow> Some (compress (Node (Some slots) (copy_mid dm m) rad None)
                (length (filter (\<lambda>n. node_pts dm P m pts n \<noteq> []) [0..<2 ^ dm]))))"
      unfolding worker_Suc by (simp only: if_not_P[OF np] if_not_P[OF False])
    with assms have "(case those (map ?f [0..<2 ^ dm]) of
             None \<Rightarrow> None
           | Some slots \<Rightarrow> Some (compress (Node (Some slots) (copy_mid dm m) rad None)
                (length (filter (\<lambda>n. node_pts dm P m pts n \<noteq> []) [0..<2 ^ dm])))) = Some t"
      by simp
    then obtain slots where
      th: "those (map ?f [0..<2 ^ dm]) = Some slots" and
      t: "t = compress (Node (Some slots) (copy_mid dm m) rad None)
             (length (filter (\<lambda>n. node_pts dm P m pts n \<noteq> []) [0..<2 ^ dm]))"
      by (cases "those (map ?f [0..<2 ^ dm])") simp_all
    from th have eq: "map ?f [0..<2 ^ dm] = map Some slots"
      by (simp only: those_eq_Some)
    then have "length (map ?f [0..<2 ^ dm]) = length (map Some slots)"
      by (rule arg_cong)
    then have len: "length slots = 2 ^ dm"
      by simp
    have nth: "?f n = Some (slots ! n)" if "n < 2 ^ dm" for n
    proof -
      from that have "map ?f [0..<2 ^ dm] ! n = ?f n" by simp
      moreover from that len have "map Some slots ! n = Some (slots ! n)" by simp
      ultimately show ?thesis using eq by simp
    qed
    show ?thesis
    proof (rule split[of slots])
      show "length pts \<noteq> 1" by fact
      show "\<not> fn (Node None (copy_mid dm m) rad None) depth" by fact
      show "length slots = 2 ^ dm" by fact
      show "slots ! n = None" if "n < 2 ^ dm" "node_pts dm P m pts n = []" for n
        using nth[OF that(1)] that(2) by simp
      show "\<exists>c. slots ! n = Some c \<and>
             worker dm P fn fuel (new_mid dm m (rad / 2) n) (rad / 2) (node_pts dm P m pts n) (depth + 1) = Some c"
        if "n < 2 ^ dm" "node_pts dm P m pts n \<noteq> []" for n
      proof -
        from nth[OF that(1)] that(2)
        have "map_option Some (worker dm P fn fuel (new_mid dm m (rad / 2) n) (rad / 2)
               (node_pts dm P m pts n) (depth + 1)) = Some (slots ! n)"
          by simp
        then obtain z where "worker dm P fn fuel (new_mid dm m (rad / 2) n) (rad / 2)
               (node_pts dm P m pts n) (depth + 1) = Some z" "Some z = slots ! n"
          unfolding map_option_eq_Some by (elim exE conjE)
        then show ?thesis
          by (intro exI[of _ z] conjI) (rule sym, assumption+)
      qed
      show "t = compress (Node (Some slots) (copy_mid dm m) rad None)
             (length (filter (\<lambda>n. node_pts dm P m pts n \<noteq> []) [0..<2 ^ dm]))" by fact
    qed
  qed
qed


lemma split_children:
  assumes "length slots = N"
    and "\<And>n. n < N \<Longrightarrow> B n = [] \<Longrightarrow> slots ! n = None"
    and "\<And>n. n < N \<Longrightarrow> B n \<noteq> [] \<Longrightarrow> \<exists>c. slots ! n = Some c"
  shows "List.map_filter (\<lambda>s. s) slots = map (\<lambda>n. the (slots ! n)) (filter (\<lambda>n. B n \<noteq> []) [0..<N])"
proof -
  have "List.map_filter (\<lambda>s. s) (map ((!) slots) [0..<N]) =
        map (\<lambda>n. the (slots ! n)) (filter (\<lambda>n. slots ! n \<noteq> None) [0..<N])"
    by (simp add: List.map_filter_def filter_map comp_def)
  moreover have "filter (\<lambda>n. slots ! n \<noteq> None) [0..<N] = filter (\<lambda>n. B n \<noteq> []) [0..<N]"
  proof (rule filter_cong[OF refl])
    fix n assume "n \<in> set [0..<N]"
    then have "n < N" by simp
    with assms(2)[of n] assms(3)[of n] show "(slots ! n \<noteq> None) = (B n \<noteq> [])"
      by (cases "B n = []") auto
  qed
  moreover have "map ((!) slots) [0..<N] = slots"
    using assms(1) map_nth[of slots] by simp
  ultimately show ?thesis by simp
qed

lemma node_pts_self: "i \<in> set pts \<Longrightarrow> node_pts dm P m pts (orthant_index dm m (P ! i)) \<noteq> []"
  by (auto simp: node_pts_def filter_empty_conv)

lemma single_bucket:
  assumes "filter (\<lambda>n. node_pts dm P m pts n \<noteq> []) [0..<2 ^ dm] = [n]"
  shows "node_pts dm P m pts n = pts" and "n < 2 ^ dm" and "pts \<noteq> []"
proof -
  from assms have "n \<in> set (filter (\<lambda>n. node_pts dm P m pts n \<noteq> []) [0..<2 ^ dm])" by simp
  then show "n < 2 ^ dm" and ne: "pts \<noteq> []" by (auto simp: node_pts_def)
  have "orthant_index dm m (P ! i) = n" if "i \<in> set pts" for i
  proof -
    from node_pts_self[OF that] have "node_pts dm P m pts (orthant_index dm m (P ! i)) \<noteq> []" .
    then have "orthant_index dm m (P ! i) \<in> set (filter (\<lambda>n. node_pts dm P m pts n \<noteq> []) [0..<2 ^ dm])"
      using orthant_index_less[of dm m "P ! i"] by simp
    with assms show ?thesis by simp
  qed
  then show "node_pts dm P m pts n = pts"
    by (simp add: node_pts_def)
qed

lemma no_bucket:
  assumes "filter (\<lambda>n. node_pts dm P m pts n \<noteq> []) [0..<2 ^ dm] = []"
  shows "pts = []"
proof (rule ccontr)
  assume "pts \<noteq> []"
  then obtain i where i: "i \<in> set pts" by (cases pts) auto
  from node_pts_self[OF i] have "node_pts dm P m pts (orthant_index dm m (P ! i)) \<noteq> []" .
  then have "orthant_index dm m (P ! i) \<in> set (filter (\<lambda>n. node_pts dm P m pts n \<noteq> []) [0..<2 ^ dm])"
    using orthant_index_less[of dm m "P ! i"] by simp
  with assms show False by simp
qed

lemma worker_induct [consumes 1, case_names leaf stop internal compressed]:
  assumes w: "worker dm P fn fuel m rad pts depth = Some t"
    and leaf: "\<And>m rad pts. length pts = 1 \<Longrightarrow> Q m rad pts (Node None (copy_mid dm m) rad (Some (pts ! 0)))"
    and stop: "\<And>m rad pts depth. length pts \<noteq> 1 \<Longrightarrow> fn (Node None (copy_mid dm m) rad None) depth \<Longrightarrow>
                 Q m rad pts (Node None (copy_mid dm m) rad None)"
    and internal: "\<And>m rad pts slots. length pts \<noteq> 1 \<Longrightarrow> length slots = 2 ^ dm \<Longrightarrow>
       (\<And>n. n < 2 ^ dm \<Longrightarrow> node_pts dm P m pts n = [] \<Longrightarrow> slots ! n = None) \<Longrightarrow>
       (\<And>n. n < 2 ^ dm \<Longrightarrow> node_pts dm P m pts n \<noteq> [] \<Longrightarrow>
          \<exists>c. slots ! n = Some c \<and>
              (\<exists>fuel' depth'. worker dm P fn fuel' (new_mid dm m (rad / 2) n) (rad / 2)
                                  (node_pts dm P m pts n) depth' = Some c) \<and>
              Q (new_mid dm m (rad / 2) n) (rad / 2) (node_pts dm P m pts n) c) \<Longrightarrow>
       (pts = [] \<and> children (Node (Some slots) (copy_mid dm m) rad None) = []
          \<or> 2 \<le> length (children (Node (Some slots) (copy_mid dm m) rad None))) \<Longrightarrow>
       Q m rad pts (Node (Some slots) (copy_mid dm m) rad None)"
    and compressed: "\<And>m rad pts n c. length pts \<noteq> 1 \<Longrightarrow> pts \<noteq> [] \<Longrightarrow> n < 2 ^ dm \<Longrightarrow>
       node_pts dm P m pts n = pts \<Longrightarrow>
       (\<exists>fuel' depth'. worker dm P fn fuel' (new_mid dm m (rad / 2) n) (rad / 2) pts depth' = Some c) \<Longrightarrow>
       Q (new_mid dm m (rad / 2) n) (rad / 2) pts c \<Longrightarrow> Q m rad pts c"
  shows "Q m rad pts t"
  using w
proof (induction fuel arbitrary: m rad pts depth t)
  case 0
  then show ?case by simp
next
  case (Suc fuel)
  from Suc.prems show ?case
  proof (cases rule: worker_Suc_Some)
    case leaf
    with assms(2)[of pts m rad] show ?thesis by simp
  next
    case stop
    with assms(3)[of pts m rad depth] show ?thesis by simp
  next
    case (split slots)
    let ?node = "Node (Some slots) (copy_mid dm m) rad None"
    let ?live = "filter (\<lambda>n. node_pts dm P m pts n \<noteq> []) [0..<2 ^ dm]"
    have kids: "children ?node = map (\<lambda>n. the (slots ! n)) ?live"
      unfolding children_Node
      by (rule split_children[OF split(3)]) (use split(4,5) in blast)+
    have sub: "\<exists>c. slots ! n = Some c \<and>
              (\<exists>fuel' depth'. worker dm P fn fuel' (new_mid dm m (rad / 2) n) (rad / 2)
                                  (node_pts dm P m pts n) depth' = Some c) \<and>
              Q (new_mid dm m (rad / 2) n) (rad / 2) (node_pts dm P m pts n) c"
      if "n < 2 ^ dm" "node_pts dm P m pts n \<noteq> []" for n
    proof -
      from split(5)[OF that] obtain c where c: "slots ! n = Some c"
        "worker dm P fn fuel (new_mid dm m (rad / 2) n) (rad / 2) (node_pts dm P m pts n) (depth + 1) = Some c"
        by blast
      from Suc.IH[OF c(2)] c show ?thesis by blast
    qed
    consider (none) "?live = []" | (one) n where "?live = [n]" | (more) "2 \<le> length ?live"
      by (cases ?live rule: list.exhaust; cases "tl ?live") (auto simp: Suc_le_eq)
    then show ?thesis
    proof cases
      case none
      then have "pts = []" by (rule no_bucket)
      moreover from none kids have "children ?node = []" by simp
      moreover from this none split(6) have "t = ?node" by (simp add: compress_def)
      ultimately show ?thesis
        using internal[of pts slots m rad, OF split(1,3,4) sub] by simp
    next
      case (one n)
      from single_bucket[OF one] have b: "node_pts dm P m pts n = pts" "n < 2 ^ dm" "pts \<noteq> []" .
      from sub[of n] b obtain c where c: "slots ! n = Some c"
        "\<exists>fuel' depth'. worker dm P fn fuel' (new_mid dm m (rad / 2) n) (rad / 2) pts depth' = Some c"
        "Q (new_mid dm m (rad / 2) n) (rad / 2) pts c"
        by auto
      from kids one c have "children ?node = [c]" by simp
      with one split(6) have "t = c" by (simp add: compress_def)
      with compressed[OF split(1) b(3,2,1) c(2,3)] show ?thesis by simp
    next
      case more
      with kids have "2 \<le> length (children ?node)" by simp
      moreover from more split(6) have "t = ?node" by (simp add: compress_def)
      ultimately show ?thesis
        using internal[of pts slots m rad, OF split(1,3,4) sub] by simp
    qed
  qed
qed

lemma subnodes_leaf [simp]: "subnodes (Node None m r p) = [Node None m r p]"
  by (simp add: subnodes.simps)

lemma set_subnodes_internal:
  "set (subnodes (Node (Some slots) m r p)) =
     insert (Node (Some slots) m r p) (\<Union>c\<in>{c. Some c \<in> set slots}. set (subnodes c))"
  by (subst subnodes.simps) (simp only: list.set set_concat set_map set_children_Some, blast)

lemma subnodes_self: "t \<in> set (subnodes t)"
  by (subst subnodes.simps) simp

lemma slot_of_child:
  assumes "Some c \<in> set slots" "length slots = N"
    and "\<And>n. n < N \<Longrightarrow> B n = [] \<Longrightarrow> slots ! n = None"
  shows "\<exists>n<N. B n \<noteq> [] \<and> slots ! n = Some c"
proof -
  from assms(1,2) obtain n where n: "n < N" "slots ! n = Some c"
    by (auto simp: in_set_conv_nth)
  with assms(3)[of n] have "B n \<noteq> []" by auto
  with n show ?thesis by blast
qed

lemma worker_all_nodes:
  assumes w: "worker dm P fn fuel m rad pts depth = Some t"
    and leaf: "\<And>m rad i. R (Node None (copy_mid dm m) rad (Some i))"
    and stop: "\<And>m rad depth. fn (Node None (copy_mid dm m) rad None) depth \<Longrightarrow>
                 R (Node None (copy_mid dm m) rad None)"
    and internal: "\<And>m rad slots. length slots = 2 ^ dm \<Longrightarrow>
                 2 \<le> length (children (Node (Some slots) (copy_mid dm m) rad None)) \<Longrightarrow>
                 R (Node (Some slots) (copy_mid dm m) rad None)"
    and empty: "\<And>m rad slots. pts = [] \<Longrightarrow> length slots = 2 ^ dm \<Longrightarrow>
                 children (Node (Some slots) (copy_mid dm m) rad None) = [] \<Longrightarrow>
                 R (Node (Some slots) (copy_mid dm m) rad None)"
  shows "\<forall>node\<in>set (subnodes t). R node"
proof -
  have "(pts' \<noteq> [] \<or> pts = []) \<longrightarrow> (\<forall>node\<in>set (subnodes t). R node)"
    if "worker dm P fn fuel m rad pts' depth = Some t" for pts'
    using that
  proof (induction rule: worker_induct)
    case (leaf m rad pts')
    then show ?case using assms(2) by simp
  next
    case (stop m rad pts' depth)
    then show ?case using assms(3) by simp
  next
    case (internal m rad pts' slots)
    let ?node = "Node (Some slots) (copy_mid dm m) rad None"
    show ?case
    proof (intro impI ballI)
      fix node
      assume a: "pts' \<noteq> [] \<or> pts = []" and "node \<in> set (subnodes ?node)"
      then consider "node = ?node" | c where "Some c \<in> set slots" "node \<in> set (subnodes c)"
        unfolding set_subnodes_internal by blast
      then show "R node"
      proof cases
        case 1
        from internal(4) a 1 show ?thesis
          using empty[OF _ internal(2), of m rad] assms(4)[OF internal(2), of m rad] by blast
      next
        case 2
        from slot_of_child[OF 2(1) internal(2,3)] obtain n where
          n: "n < 2 ^ dm" "node_pts dm P m pts' n \<noteq> []" "slots ! n = Some c" by blast
        with internal(5)[OF n(1,2)] 2(2) show ?thesis by auto
      qed
    qed
  next
    case (compressed m rad pts' n c)
    then show ?case by simp
  qed
  from this[OF w] show ?thesis by simp
qed

section \<open>The loop of \<open>knn\<close>\<close>

lemma pq_top_in: "pq \<noteq> [] \<Longrightarrow> pq_top pq \<in> set pq"
  by (simp add: pq_top_def arg_min_list_in)

lemma size_Node_pos: "0 < size (node :: Node)"
  by (cases node) simp

lemma pq_size_pop: "pq \<noteq> [] \<Longrightarrow> pq_size pq = size (fst (pq_top pq)) + pq_size (pq_pop pq)"
  unfolding pq_size_def pq_pop_def
  using sum_list_map_remove1[OF pq_top_in, of pq "\<lambda>e. size (fst e)"] by simp

lemma children_size_sum: "sum_list (map size (children node)) < size node"
proof (cases node)
  case (Node ns m r p)
  show ?thesis
  proof (cases ns)
    case None
    with Node show ?thesis by simp
  next
    case (Some slots)
    have "sum_list (map size (List.map_filter (\<lambda>s. s) slots)) \<le> size_list (size_option size) slots"
      by (induction slots) (auto simp: List.map_filter_def)
    with Node Some show ?thesis by simp
  qed
qed

lemma pq_size_push: "pq_size (push_children indet dm p kth node) < size node"
proof -
  have "pq_size (filter Q (map (\<lambda>c. (c, f c)) cs)) \<le> sum_list (map size cs)" for Q f and cs :: "Node list"
    by (induction cs) (auto simp: pq_size_def)
  from this[of _ _ "children node"] children_size_sum[of node] show ?thesis
    unfolding push_children_def by (rule le_less_trans)
qed

lemma pq_size_append: "pq_size (xs @ ys) = pq_size xs + pq_size ys"
  by (simp add: pq_size_def)

lemma knn_loop_Nil: "knn_loop indet dm P k p eps [] qr = Some (Inr qr)"
  by (subst knn_loop.simps) simp

lemma knn_loop_leaf:
  "pq \<noteq> [] \<Longrightarrow> nodes (fst (pq_top pq)) = None \<Longrightarrow> pt (fst (pq_top pq)) = Some i \<Longrightarrow>
     knn_loop indet dm P k p eps pq qr =
     knn_loop indet dm P k p eps (pq_pop pq) (qr_add k (i, sq_dist dm (P ! i) p) qr)"
  by (subst knn_loop.simps) (simp add: Let_def)

lemma knn_loop_null:
  "pq \<noteq> [] \<Longrightarrow> nodes (fst (pq_top pq)) = None \<Longrightarrow> pt (fst (pq_top pq)) = None \<Longrightarrow>
     knn_loop indet dm P k p eps pq qr = Some (Inl NullPointer)"
  by (subst knn_loop.simps) (simp add: Let_def)

lemma knn_loop_empty:
  "pq \<noteq> [] \<Longrightarrow> nodes (fst (pq_top pq)) \<noteq> None \<Longrightarrow> \<not> length qr < k \<Longrightarrow> qr = [] \<Longrightarrow>
     knn_loop indet dm P k p eps pq qr = Some (Inl EmptyResult)"
  by (subst knn_loop.simps) (auto simp add: Let_def)

lemma knn_loop_break:
  "pq \<noteq> [] \<Longrightarrow> nodes (fst (pq_top pq)) \<noteq> None \<Longrightarrow> length qr < k \<or> qr \<noteq> [] \<Longrightarrow>
     kth_dist k qr \<le> (1 + eps) * snd (pq_top pq) \<Longrightarrow>
     knn_loop indet dm P k p eps pq qr = Some (Inr qr)"
  by (subst knn_loop.simps) (auto simp add: Let_def)

lemma knn_loop_push:
  "pq \<noteq> [] \<Longrightarrow> nodes (fst (pq_top pq)) \<noteq> None \<Longrightarrow> length qr < k \<or> qr \<noteq> [] \<Longrightarrow>
     \<not> kth_dist k qr \<le> (1 + eps) * snd (pq_top pq) \<Longrightarrow>
     knn_loop indet dm P k p eps pq qr =
     knn_loop indet dm P k p eps (pq_pop pq @ push_children indet dm p (kth_dist k qr) (fst (pq_top pq))) qr"
  by (subst knn_loop.simps) (auto simp add: Let_def)

lemma knn_loop_rule:
  assumes "I pq qr"
    and fin: "\<And>qr. I [] qr \<Longrightarrow> Post (Inr qr)"
    and leaf: "\<And>pq qr i. I pq qr \<Longrightarrow> pq \<noteq> [] \<Longrightarrow> nodes (fst (pq_top pq)) = None \<Longrightarrow>
                 pt (fst (pq_top pq)) = Some i \<Longrightarrow>
                 I (pq_pop pq) (qr_add k (i, sq_dist dm (P ! i) p) qr)"
    and null: "\<And>pq qr. I pq qr \<Longrightarrow> pq \<noteq> [] \<Longrightarrow> nodes (fst (pq_top pq)) = None \<Longrightarrow>
                 pt (fst (pq_top pq)) = None \<Longrightarrow> Post (Inl NullPointer)"
    and empty: "\<And>pq qr. I pq qr \<Longrightarrow> pq \<noteq> [] \<Longrightarrow> nodes (fst (pq_top pq)) \<noteq> None \<Longrightarrow>
                 \<not> length qr < k \<Longrightarrow> qr = [] \<Longrightarrow> Post (Inl EmptyResult)"
    and brk: "\<And>pq qr. I pq qr \<Longrightarrow> pq \<noteq> [] \<Longrightarrow> nodes (fst (pq_top pq)) \<noteq> None \<Longrightarrow>
                 length qr < k \<or> qr \<noteq> [] \<Longrightarrow>
                 kth_dist k qr \<le> (1 + eps) * snd (pq_top pq) \<Longrightarrow> Post (Inr qr)"
    and push: "\<And>pq qr. I pq qr \<Longrightarrow> pq \<noteq> [] \<Longrightarrow> nodes (fst (pq_top pq)) \<noteq> None \<Longrightarrow>
                 length qr < k \<or> qr \<noteq> [] \<Longrightarrow>
                 \<not> kth_dist k qr \<le> (1 + eps) * snd (pq_top pq) \<Longrightarrow>
                 I (pq_pop pq @ push_children indet dm p (kth_dist k qr) (fst (pq_top pq))) qr"
  shows "\<exists>r. knn_loop indet dm P k p eps pq qr = Some r \<and> Post r"
  using assms(1)
proof (induction pq arbitrary: qr rule: measure_induct_rule[where f = pq_size])
  case (less pq)
  show ?case
  proof (cases "pq = []")
    case True
    with less.prems fin show ?thesis
      by (simp add: knn_loop_Nil)
  next
    case ne: False
    let ?node = "fst (pq_top pq)"
    from pq_size_pop[OF ne] size_Node_pos[of ?node] have pop: "pq_size (pq_pop pq) < pq_size pq"
      by simp
    show ?thesis
    proof (cases "nodes ?node = None")
      case True
      show ?thesis
      proof (cases "pt ?node")
        case None
        from null[OF less.prems ne True None] show ?thesis
          by (simp add: knn_loop_null[OF ne True None])
      next
        case (Some i)
        from less.IH[OF pop leaf[OF less.prems ne True Some]]
        show ?thesis
          by (simp only: knn_loop_leaf[OF ne True Some])
      qed
    next
      case False
      show ?thesis
      proof (cases "\<not> length qr < k \<and> qr = []")
        case True
        then have e: "\<not> length qr < k" "qr = []" by blast+
        from empty[OF less.prems ne False e] show ?thesis
          by (simp add: knn_loop_empty[OF ne False e])
      next
        case ok: False
        then have ok': "length qr < k \<or> qr \<noteq> []" by blast
        show ?thesis
        proof (cases "kth_dist k qr \<le> (1 + eps) * snd (pq_top pq)")
          case True
          from brk[OF less.prems ne False ok' True] show ?thesis
            by (simp add: knn_loop_break[OF ne False ok' True])
        next
          case far: False
          let ?pq = "pq_pop pq @ push_children indet dm p (kth_dist k qr) ?node"
          have "pq_size ?pq < pq_size pq"
            using pq_size_pop[OF ne] pq_size_push[of indet dm p "kth_dist k qr" ?node]
            by (simp add: pq_size_append)
          from less.IH[OF this push[OF less.prems ne False ok' far]]
          show ?thesis
            by (simp only: knn_loop_push[OF ne False ok' far])
        qed
      qed
    qed
  qed
qed

lemma subnodes_child: "c \<in> set (children node) \<Longrightarrow> set (subnodes c) \<subseteq> set (subnodes node)"
  by (subst (2) subnodes.simps) auto

lemma push_children_fst: "e \<in> set (push_children indet dm p kth node) \<Longrightarrow> fst e \<in> set (children node)"
  by (auto simp: push_children_def)

lemma pq_pop_subset: "set (pq_pop pq) \<subseteq> set pq"
  by (simp add: pq_pop_def set_remove1_subset)

lemma knn_no_null:
  assumes "\<forall>node\<in>set (subnodes t). nodes node = None \<longrightarrow> pt node \<noteq> None"
  shows "knn indet dm P t k p eps \<noteq> Some (Inl NullPointer)"
proof -
  let ?ok = "\<lambda>node. \<forall>n\<in>set (subnodes node). nodes n = None \<longrightarrow> pt n \<noteq> None"
  have "\<exists>r. knn_loop indet dm P k p eps [(t, 0)] [] = Some r \<and> r \<noteq> Inl NullPointer"
  proof (rule knn_loop_rule[where I = "\<lambda>pq qr. \<forall>e\<in>set pq. ?ok (fst e)"])
    show "\<forall>e\<in>set [(t, 0::real)]. ?ok (fst e)" using assms by simp
  next
    fix pq :: "(Node \<times> real) list" and qr :: "(nat \<times> real) list"
    assume a: "\<forall>e\<in>set pq. ?ok (fst e)" "pq \<noteq> []" "nodes (fst (pq_top pq)) = None"
       "pt (fst (pq_top pq)) = None"
    from pq_top_in[OF a(2)] a(1) have "?ok (fst (pq_top pq))" by blast
    with subnodes_self[of "fst (pq_top pq)"] a(3,4) show "Inl NullPointer \<noteq> Inl NullPointer"
      by blast
  next
    fix pq :: "(Node \<times> real) list" and qr :: "(nat \<times> real) list" and i
    assume "\<forall>e\<in>set pq. ?ok (fst e)"
    with pq_pop_subset[of pq] show "\<forall>e\<in>set (pq_pop pq). ?ok (fst e)" by blast
  next
    fix pq :: "(Node \<times> real) list" and qr :: "(nat \<times> real) list"
    assume a: "\<forall>e\<in>set pq. ?ok (fst e)" "pq \<noteq> []"
    from pq_top_in[OF a(2)] a(1) have top: "?ok (fst (pq_top pq))" by blast
    show "\<forall>e\<in>set (pq_pop pq @ push_children indet dm p (kth_dist k qr) (fst (pq_top pq))). ?ok (fst e)"
    proof
      fix e assume "e \<in> set (pq_pop pq @ push_children indet dm p (kth_dist k qr) (fst (pq_top pq)))"
      then consider "e \<in> set (pq_pop pq)" | "e \<in> set (push_children indet dm p (kth_dist k qr) (fst (pq_top pq)))"
        by auto
      then show "?ok (fst e)"
      proof cases
        case 1
        with pq_pop_subset[of pq] a(1) show ?thesis by blast
      next
        case 2
        from subnodes_child[OF push_children_fst[OF 2]] top show ?thesis by blast
      qed
    qed
  qed simp_all
  then show ?thesis by (auto simp: knn_def)
qed

section \<open>The points held by a built tree\<close>

lemma map_filter_concat: "List.map_filter f (concat xss) = concat (map (List.map_filter f) xss)"
  unfolding List.map_filter_def by (simp add: filter_concat map_concat comp_def)

lemma leaves_leaf [simp]: "leaves (Node None m r p) = (case p of None \<Rightarrow> [] | Some i \<Rightarrow> [i])"
  by (simp add: leaves_def List.map_filter_def split: option.splits)

lemma leaves_internal:
  "nodes node \<noteq> None \<Longrightarrow> leaves node = concat (map leaves (children node))"
proof -
  assume a: "nodes node \<noteq> None"
  have "leaves node =
        List.map_filter (\<lambda>node. if nodes node = None then pt node else None)
          (node # concat (map subnodes (children node)))"
    unfolding leaves_def by (subst subnodes.simps) (rule refl)
  also have "\<dots> = List.map_filter (\<lambda>node. if nodes node = None then pt node else None)
          (concat (map subnodes (children node)))"
    using a by (auto simp: List.map_filter_simps)
  also have "\<dots> = concat (map leaves (children node))"
    unfolding map_filter_concat by (simp add: leaves_def[abs_def] comp_def)
  finally show ?thesis .
qed

lemma mset_partition:
  assumes "\<forall>i\<in>set xs. g i < N"
  shows "sum_list (map (\<lambda>n. mset (filter (\<lambda>i. g i = n) xs)) [0..<N]) = mset xs"
  using assms
proof (induction xs)
  case Nil
  show ?case by (induction N) simp_all
next
  case (Cons x xs)
  have one: "sum_list (map (\<lambda>n. if g x = n then {#x#} else {#}) [0..<N]) = {#x#}"
  proof -
    have "sum_list (map (\<lambda>n. if g x = n then {#x#} else {#}) [0..<N]) =
          (\<Sum>n\<in>{0..<N}. if g x = n then {#x#} else {#})"
      by (simp add: sum_list_distinct_conv_sum_set)
    also have "\<dots> = {#x#}"
      using Cons.prems by (simp add: sum.delta')
    finally show ?thesis .
  qed
  have "sum_list (map (\<lambda>n. mset (filter (\<lambda>i. g i = n) (x # xs))) [0..<N]) =
        sum_list (map (\<lambda>n. (if g x = n then {#x#} else {#}) + mset (filter (\<lambda>i. g i = n) xs)) [0..<N])"
    by (rule arg_cong[where f = sum_list], rule map_cong) auto
  also have "\<dots> = sum_list (map (\<lambda>n. if g x = n then {#x#} else {#}) [0..<N]) +
                   sum_list (map (\<lambda>n. mset (filter (\<lambda>i. g i = n) xs)) [0..<N])"
    by (rule sum_list_addf)
  also have "\<dots> = {#x#} + mset xs"
    using Cons by (simp add: one)
  finally show ?case by simp
qed

lemma mset_buckets:
  "sum_list (map (\<lambda>n. mset (node_pts dm P m pts n)) (filter (\<lambda>n. node_pts dm P m pts n \<noteq> []) [0..<2 ^ dm]))
     = mset pts"
proof -
  have "sum_list (map (\<lambda>n. mset (node_pts dm P m pts n)) (filter (\<lambda>n. node_pts dm P m pts n \<noteq> []) [0..<2 ^ dm]))
        = sum_list (map (\<lambda>n. mset (node_pts dm P m pts n)) [0..<2 ^ dm])"
    by (rule sum_list_map_filter) simp
  also have "\<dots> = mset pts"
    unfolding node_pts_def by (rule mset_partition) (simp add: orthant_index_less)
  finally show ?thesis .
qed

lemma sum_list_mset_mono:
  "(\<And>x. x \<in> set xs \<Longrightarrow> f x \<subseteq># g x) \<Longrightarrow> sum_list (map f xs) \<subseteq># sum_list (map g xs)"
  by (induction xs) (auto intro: subset_mset.add_mono)

lemma worker_leaves:
  assumes "worker dm P fn fuel m rad pts depth = Some t"
  shows "mset (leaves t) \<subseteq># mset pts \<and> ((\<forall>node d. \<not> fn node d) \<longrightarrow> mset (leaves t) = mset pts)"
  using assms
proof (induction rule: worker_induct)
  case (leaf m rad pts)
  then show ?case by (cases pts) auto
next
  case (stop m rad pts depth)
  then show ?case by auto
next
  case (internal m rad pts slots)
  let ?node = "Node (Some slots) (copy_mid dm m) rad None"
  let ?live = "filter (\<lambda>n. node_pts dm P m pts n \<noteq> []) [0..<2 ^ dm]"
  have kids: "children ?node = map (\<lambda>n. the (slots ! n)) ?live"
    unfolding children_Node
    by (rule split_children[OF internal(2)]) (use internal(3,5) in blast)+
  have "leaves ?node = concat (map leaves (map (\<lambda>n. the (slots ! n)) ?live))"
    using leaves_internal[of ?node] unfolding kids by simp
  then have l: "mset (leaves ?node) = sum_list (map (\<lambda>n. mset (leaves (the (slots ! n)))) ?live)"
    by (simp add: mset_concat comp_def)
  have sub: "mset (leaves (the (slots ! n))) \<subseteq># mset (node_pts dm P m pts n)"
       "(\<forall>node d. \<not> fn node d) \<Longrightarrow> mset (leaves (the (slots ! n))) = mset (node_pts dm P m pts n)"
    if "n \<in> set ?live" for n
    using that internal(5)[of n] by auto
  have "mset (leaves ?node) \<subseteq># mset pts"
    unfolding l mset_buckets[of dm P m pts, symmetric]
    by (rule sum_list_mset_mono) (rule sub(1))
  moreover have "mset (leaves ?node) = mset pts" if "\<forall>node d. \<not> fn node d"
    unfolding l mset_buckets[of dm P m pts, symmetric]
    by (rule arg_cong[where f = sum_list], rule map_cong[OF refl]) (rule sub(2)[OF _ that])
  ultimately show ?case by blast
next
  case (compressed m rad pts n c)
  then show ?case by simp
qed

section \<open>The result list of \<open>knn\<close>\<close>

lemma qr_insert_snd: "map snd (qr_insert e qr) = insort (snd e) (map snd qr)"
  by (induction qr) auto

lemma length_qr_insert [simp]: "length (qr_insert e qr) = Suc (length qr)"
  by (induction qr) auto

lemma sorted_qr_add: "sorted (map snd qr) \<Longrightarrow> sorted (map snd (qr_add k e qr))"
  by (auto simp: qr_add_def Let_def qr_insert_snd map_butlast sorted_insort sorted_butlast)

lemma length_qr_add_le: "length qr \<le> k \<Longrightarrow> length (qr_add k e qr) \<le> k"
  by (auto simp: qr_add_def Let_def)

lemma length_qr_add_Suc: "length (qr_add k e qr) \<le> Suc (length qr)"
  by (auto simp: qr_add_def Let_def)

lemma pq_leaves_pop: "pq \<noteq> [] \<Longrightarrow> pq_leaves pq = length (leaves (fst (pq_top pq))) + pq_leaves (pq_pop pq)"
  unfolding pq_leaves_def pq_pop_def
  using sum_list_map_remove1[OF pq_top_in, of pq "\<lambda>e. length (leaves (fst e))"] by simp

lemma pq_leaves_push:
  assumes "nodes node \<noteq> None"
  shows "pq_leaves (push_children indet dm p kth node) \<le> length (leaves node)"
proof -
  have "pq_leaves (filter Q (map (\<lambda>c. (c, f c)) cs)) \<le> sum_list (map (\<lambda>c. length (leaves c)) cs)"
    for Q f and cs :: "Node list"
    by (induction cs) (auto simp: pq_leaves_def)
  from this[of _ _ "children node"] show ?thesis
    unfolding push_children_def leaves_internal[OF assms]
    by (simp add: length_concat comp_def)
qed

lemma leaves_of_leaf: "nodes node = None \<Longrightarrow> pt node = Some i \<Longrightarrow> leaves node = [i]"
  by (cases node) simp

lemma knn_sorted_bounded:
  assumes "knn indet dm P t k p eps = Some (Inr qr)"
  shows "sorted (map snd qr) \<and> length qr \<le> k \<and> length qr \<le> length (leaves t)"
proof -
  let ?I = "\<lambda>pq qr. sorted (map snd qr) \<and> length qr \<le> k \<and> length qr + pq_leaves pq \<le> length (leaves t)"
  let ?Post = "\<lambda>r. \<forall>qr. r = Inr qr \<longrightarrow> sorted (map snd qr) \<and> length qr \<le> k \<and> length qr \<le> length (leaves t)"
  have "\<exists>r. knn_loop indet dm P k p eps [(t, 0)] [] = Some r \<and> ?Post r"
  proof (rule knn_loop_rule[where I = ?I and Post = ?Post])
    show "?I [(t, 0)] []" by (simp add: pq_leaves_def)
  next
    fix pq :: "(Node \<times> real) list" and qr :: "(nat \<times> real) list" and i
    assume a: "?I pq qr" "pq \<noteq> []" "nodes (fst (pq_top pq)) = None" "pt (fst (pq_top pq)) = Some i"
    from pq_leaves_pop[OF a(2)] leaves_of_leaf[OF a(3,4)]
    have "pq_leaves pq = Suc (pq_leaves (pq_pop pq))" by simp
    with a(1) length_qr_add_Suc[of k "(i, sq_dist dm (P ! i) p)" qr]
    show "?I (pq_pop pq) (qr_add k (i, sq_dist dm (P ! i) p) qr)"
      by (simp add: sorted_qr_add length_qr_add_le)
  next
    fix pq :: "(Node \<times> real) list" and qr :: "(nat \<times> real) list"
    assume a: "?I pq qr" "pq \<noteq> []" "nodes (fst (pq_top pq)) \<noteq> None"
    let ?new = "push_children indet dm p (kth_dist k qr) (fst (pq_top pq))"
    have "pq_leaves (pq_pop pq @ ?new) = pq_leaves (pq_pop pq) + pq_leaves ?new"
      by (simp add: pq_leaves_def)
    with pq_leaves_pop[OF a(2)] pq_leaves_push[OF a(3), of indet dm p "kth_dist k qr"] a(1)
    show "?I (pq_pop pq @ ?new) qr" by simp
  qed simp_all
  with assms show ?thesis by (simp add: knn_def)
qed

section \<open>Regions of built trees\<close>

lemma bit_add_high:
  fixes a :: nat
  assumes "d < n"
  shows "bit (a + 2 ^ n) d = bit a d"
proof -
  from assms have dvd: "(2::nat) ^ d dvd 2 ^ n" by (simp add: le_imp_power_dvd)
  have "(a + 2 ^ n) div 2 ^ d = a div 2 ^ d + 2 ^ n div 2 ^ d"
    by (rule div_plus_div_distrib_dvd_right[OF dvd])
  also from assms have "(2::nat) ^ n div 2 ^ d = 2 ^ (n - d)"
    by (simp add: power_diff)
  finally have "(a + 2 ^ n) div 2 ^ d = a div 2 ^ d + 2 ^ (n - d)" .
  moreover from assms have "even ((2::nat) ^ (n - d))" by simp
  ultimately show ?thesis by (simp add: bit_iff_odd)
qed

lemma orthant_bit: "d < dm \<Longrightarrow> bit (orthant_index dm m x) d = (x ! d > m ! d)"
proof (induction dm)
  case 0
  then show ?case by simp
next
  case (Suc dm)
  show ?case
  proof (cases "d < dm")
    case True
    with Suc.IH show ?thesis
      by (simp add: orthant_index_Suc bit_add_high)
  next
    case False
    with Suc.prems have d: "d = dm" by simp
    have "orthant_index dm m x div 2 ^ dm = 0"
      using orthant_index_less[of dm m x] by simp
    moreover have "(orthant_index dm m x + 2 ^ dm) div 2 ^ dm = 1"
      using orthant_index_less[of dm m x] by (simp add: div_add_self2)
    ultimately show ?thesis
      unfolding d by (simp add: orthant_index_Suc bit_iff_odd)
  qed
qed

lemma copy_mid_nth [simp]: "d < dm \<Longrightarrow> copy_mid dm m ! d = m ! d"
  by (simp add: copy_mid_def)

lemma new_mid_nth: "d < dm \<Longrightarrow> new_mid dm m r n ! d = (if bit n d then m ! d + r else m ! d - r)"
  by (simp add: new_mid_def)

lemma in_region_copy_mid [simp]: "in_region dm x (copy_mid dm m) rad = in_region dm x m rad"
  by (simp add: in_region_def)

lemma child_region:
  assumes "in_region dm x m rad"
  shows "in_region dm x (new_mid dm m (rad / 2) (orthant_index dm m x)) (rad / 2)"
  unfolding in_region_def
proof (intro allI impI)
  fix d assume d: "d < dm"
  with assms have "m ! d - rad \<le> x ! d" "x ! d \<le> m ! d + rad"
    by (auto simp: in_region_def)
  then show "new_mid dm m (rad / 2) (orthant_index dm m x) ! d - rad / 2 \<le> x ! d \<and>
        x ! d \<le> new_mid dm m (rad / 2) (orthant_index dm m x) ! d + rad / 2"
    by (simp add: new_mid_nth[OF d] orthant_bit[OF d])
qed

lemma node_pts_orthant: "i \<in> set (node_pts dm P m pts n) \<Longrightarrow> orthant_index dm m (P ! i) = n \<and> i \<in> set pts"
  by (simp add: node_pts_def)

lemma worker_leaves_subset:
  "worker dm P fn fuel m rad pts depth = Some t \<Longrightarrow> set (leaves t) \<subseteq> set pts"
proof -
  assume "worker dm P fn fuel m rad pts depth = Some t"
  from worker_leaves[OF this] have "mset (leaves t) \<subseteq># mset pts" by (rule conjunct1)
  from set_mset_mono[OF this] show ?thesis by simp
qed

lemma set_map_filter_id [simp]: "set (List.map_filter (\<lambda>s. s) slots) = {c. Some c \<in> set slots}"
  by (force simp: List.map_filter_def image_iff)

lemma leaves_internal_set:
  "nodes node \<noteq> None \<Longrightarrow> set (leaves node) = (\<Union>c\<in>set (children node). set (leaves c))"
  by (simp add: leaves_internal)

text \<open>
  In the exact arithmetic of the model a child's region contains the points sent to it, so
  that the region of every node contains the points stored below it when the root region
  does. (The program rounds the midpoint of a child: the edge of the child's region that
  should be the parent's midpoint can then lie on the other side of a point sent to the
  child.)
\<close>

lemma worker_covers:
  assumes "worker dm P fn fuel m rad pts depth = Some t"
  shows "(\<forall>i\<in>set pts. in_region dm (P ! i) m rad) \<longrightarrow>
         (\<forall>node\<in>set (subnodes t). \<forall>i\<in>set (leaves node). in_region dm (P ! i) (mid node) (radius node))"
  using assms
proof (induction rule: worker_induct)
  case (leaf m rad pts)
  then show ?case by (cases pts) auto
next
  case (stop m rad pts depth)
  then show ?case by simp
next
  case (internal m rad pts slots)
  let ?node = "Node (Some slots) (copy_mid dm m) rad None"
  show ?case
  proof (intro impI ballI)
    fix node i
    assume a: "\<forall>i\<in>set pts. in_region dm (P ! i) m rad" and "node \<in> set (subnodes ?node)" 
      and i: "i \<in> set (leaves node)"
    then consider "node = ?node" | c where "Some c \<in> set slots" "node \<in> set (subnodes c)"
      unfolding set_subnodes_internal by blast
    then show "in_region dm (P ! i) (mid node) (radius node)"
    proof cases
      case 1
      with i leaves_internal_set[of ?node] obtain c where c: "Some c \<in> set slots" "i \<in> set (leaves c)"
        by auto
      from slot_of_child[OF c(1) internal(2,3)] obtain n where
        n: "n < 2 ^ dm" "node_pts dm P m pts n \<noteq> []" "slots ! n = Some c" by blast
      from internal(5)[OF n(1,2)] n(3) obtain fuel' depth' where
        "worker dm P fn fuel' (new_mid dm m (rad / 2) n) (rad / 2) (node_pts dm P m pts n) depth' = Some c"
        by auto
      from worker_leaves_subset[OF this] c(2) have "i \<in> set pts"
        by (auto dest: node_pts_orthant)
      with a 1 show ?thesis by simp
    next
      case 2
      from slot_of_child[OF 2(1) internal(2,3)] obtain n where
        n: "n < 2 ^ dm" "node_pts dm P m pts n \<noteq> []" "slots ! n = Some c" by blast
      have "\<forall>i\<in>set (node_pts dm P m pts n). in_region dm (P ! i) (new_mid dm m (rad / 2) n) (rad / 2)"
      proof
        fix j assume "j \<in> set (node_pts dm P m pts n)"
        from node_pts_orthant[OF this] a child_region[of dm "P ! j" m rad]
        show "in_region dm (P ! j) (new_mid dm m (rad / 2) n) (rad / 2)" by auto
      qed
      with internal(5)[OF n(1,2)] n(3) 2(2) i show ?thesis by auto
    qed
  qed
next
  case (compressed m rad pts n c)
  show ?case
  proof
    assume a: "\<forall>i\<in>set pts. in_region dm (P ! i) m rad"
    have "\<forall>i\<in>set pts. in_region dm (P ! i) (new_mid dm m (rad / 2) n) (rad / 2)"
    proof
      fix j assume "j \<in> set pts"
      with compressed(4) have "j \<in> set (node_pts dm P m pts n)" by simp
      from node_pts_orthant[OF this] a child_region[of dm "P ! j" m rad]
      show "in_region dm (P ! j) (new_mid dm m (rad / 2) n) (rad / 2)" by auto
    qed
    with compressed(6) show "\<forall>node\<in>set (subnodes c). \<forall>i\<in>set (leaves node).
        in_region dm (P ! i) (mid node) (radius node)" by blast
  qed
qed

lemma root_region_loop_spec:
  "root_region_loop dm rng ds (m0, r0) = Some (m, r) \<Longrightarrow>
     m = m0 @ map (\<lambda>d. (rng ! (d * dm) + rng ! (d * dm + 1)) / 2) ds \<and> r0 \<le> r \<and>
     (\<forall>d\<in>set ds. d * dm + 1 < length rng \<and> (rng ! (d * dm + 1) - rng ! (d * dm)) / 2 \<le> r)"
proof (induction ds arbitrary: m0 r0)
  case Nil
  then show ?case by simp
next
  case (Cons d ds)
  from Cons.prems have lt: "d * dm + 1 < length rng"
    by (auto simp: range_at_def split: if_splits)
  let ?side = "(rng ! (d * dm + 1) - rng ! (d * dm)) / 2"
  from Cons.prems lt have
    "root_region_loop dm rng ds (m0 @ [(rng ! (d * dm) + rng ! (d * dm + 1)) / 2],
        if ?side > r0 then ?side else r0) = Some (m, r)"
    by (simp add: range_at_def Let_def split del: if_split cong: if_cong)
  from Cons.IH[OF this] lt show ?case by (auto split: if_splits)
qed

lemma root_region_spec:
  assumes "root_region dm rng = Some (m, r)"
  shows "0 \<le> r" and "d < dm \<Longrightarrow> d * dm + 1 < length rng"
    and "d < dm \<Longrightarrow> m ! d = (rng ! (d * dm) + rng ! (d * dm + 1)) / 2"
    and "d < dm \<Longrightarrow> (rng ! (d * dm + 1) - rng ! (d * dm)) / 2 \<le> r"
  using root_region_loop_spec[OF assms[unfolded root_region_def]] by auto

text \<open>
  With an array of exactly \<open>2 * dim\<close> entries the reads of the constructor stay inside the
  array only when \<open>dim\<close> is at most 2, and then they are the reads of the pairs.
\<close>

lemma pair_layout:
  assumes "root_region dm rng = Some (m, r)" and "length rng = 2 * dm" and "d < dm"
  shows "d * dm = 2 * d"
proof -
  from assms(3) have "dm - 1 < dm" by simp
  from root_region_spec(2)[OF assms(1) this] assms(2) have b: "(dm - 1) * dm + 1 < 2 * dm" by simp
  have "dm \<le> 2"
  proof (rule ccontr)
    assume "\<not> dm \<le> 2"
    then obtain k where "dm = Suc (Suc (Suc k))" by (metis not_less_eq_eq numeral_2_eq_2 Suc_le_D le_cases)
    with b show False by (simp add: algebra_simps)
  qed
  with assms(3) consider "dm = 1" "d = 0" | "dm = 2" by (cases dm; cases "dm - 1") auto
  then show ?thesis by cases simp_all
qed

lemma root_region_covers:
  assumes rr: "root_region dm rng = Some (m, r)"
    and x: "\<forall>d<dm. rng ! (d * dm) \<le> x ! d \<and> x ! d \<le> rng ! (d * dm + 1)"
  shows "in_region dm x m r"
  unfolding in_region_def
proof (intro allI impI)
  fix d assume d: "d < dm"
  from root_region_spec(3,4)[OF rr d] x d
  show "m ! d - r \<le> x ! d \<and> x ! d \<le> m ! d + r"
    by (auto simp: field_simps)
qed

lemma built_covers:
  assumes "CompressedQuadtree dm P rng fn fuel = Some t"
    and "\<forall>x\<in>set P. \<forall>d<dm. rng ! (d * dm) \<le> x ! d \<and> x ! d \<le> rng ! (d * dm + 1)"
  shows "\<forall>node\<in>set (subnodes t). \<forall>i\<in>set (leaves node). in_region dm (P ! i) (mid node) (radius node)"
proof -
  from assms(1) obtain m rad where rr: "root_region dm rng = Some (m, rad)"
    and w: "worker dm P fn fuel m rad [0..<length P] 0 = Some t"
    by (auto simp: CompressedQuadtree_def split: option.splits)
  have "\<forall>i\<in>set [0..<length P]. in_region dm (P ! i) m rad"
    using root_region_covers[OF rr] assms(2) by simp
  with worker_covers[OF w] show ?thesis by blast
qed

lemma in_region_in_node: "in_region dm x (mid node) (radius node) \<Longrightarrow> in_node node x dm"
  by (auto simp: in_region_def in_node_def list_all_iff locate_eps_def)

lemma set_map_filter: "set (List.map_filter g xs) = {y. \<exists>x\<in>set xs. g x = Some y}"
  by (force simp: List.map_filter_def image_iff)

lemma leaves_iff: "i \<in> set (leaves t) \<longleftrightarrow> (\<exists>node\<in>set (subnodes t). nodes node = None \<and> pt node = Some i)"
  by (auto simp: leaves_def set_map_filter split: if_splits)

lemma sq_dist_sum: "sq_dist dm a p = (\<Sum>d<dm. (a ! d - p ! d)\<^sup>2)"
  by (induction dm) (simp_all add: sq_dist_def power2_eq_square)

lemma sq_dist_ge: "d < dm \<Longrightarrow> (a ! d - p ! d)\<^sup>2 \<le> sq_dist dm a p"
  unfolding sq_dist_sum
  by (rule member_le_sum) simp_all

lemma sq_dist_nonneg: "0 \<le> sq_dist dm a p"
  unfolding sq_dist_sum by (rule sum_nonneg) simp

lemma DBL_MAX_pos: "0 < DBL_MAX"
  by (simp add: DBL_MAX_def)

lemma gap_le:
  assumes "outside node q d" and "mid node ! d - radius node \<le> x ! d" and "x ! d \<le> mid node ! d + radius node"
  shows "0 < gap node q d" and "gap node q d \<le> \<bar>x ! d - q ! d\<bar>"
  using assms by (auto simp: outside_def gap_def)

text \<open>
  The bound is below the squared distance to every point of the node's region, as long as
  the values read from the unassigned local are not negative: the running minimum is then
  between 0 and the gap on a dimension where the query point is outside.
\<close>

lemma bound_sound:
  assumes reg: "in_region dm x (mid node) (radius node)"
    and reads: "\<forall>d<dm. outside node q d \<or> 0 \<le> indet d"
  shows "min_pt_dist_to_node indet dm q node \<le> sq_dist dm x q"
proof (cases "\<forall>d<dm. \<not> outside node q d")
  case True
  then show ?thesis
    by (simp add: min_pt_dist_to_node_eq sq_dist_nonneg)
next
  case False
  then obtain d0 where d0: "d0 < dm" "outside node q d0" by blast
  define M where "M = Min (insert DBL_MAX (read_dist indet node q ` {..<dm}))"
  from reg d0(1) have r0: "mid node ! d0 - radius node \<le> x ! d0" "x ! d0 \<le> mid node ! d0 + radius node"
    by (auto simp: in_region_def)
  have "0 \<le> g" if "g \<in> insert DBL_MAX (read_dist indet node q ` {..<dm})" for g
  proof -
    from that consider "g = DBL_MAX" | d where "d < dm" "g = read_dist indet node q d" by auto
    then show ?thesis
    proof cases
      case 1
      with DBL_MAX_pos show ?thesis by simp
    next
      case 2
      show ?thesis
      proof (cases "outside node q d")
        case True
        from reg 2(1) have "mid node ! d - radius node \<le> x ! d" "x ! d \<le> mid node ! d + radius node"
          by (auto simp: in_region_def)
        from gap_le(1)[OF True this] 2(2) True show ?thesis by (simp add: read_dist_def)
      next
        case False
        with reads 2 show ?thesis by (auto simp: read_dist_def)
      qed
    qed
  qed
  then have M0: "0 \<le> M" unfolding M_def by simp
  from d0(1) have "M \<le> read_dist indet node q d0" unfolding M_def by (intro Min_le) auto
  also from d0(2) have "\<dots> = gap node q d0" by (simp add: read_dist_def)
  also from gap_le(2)[OF d0(2) r0] have "\<dots> \<le> \<bar>x ! d0 - q ! d0\<bar>" .
  finally have "\<bar>M\<bar> \<le> \<bar>x ! d0 - q ! d0\<bar>"
    using M0 by simp
  then have "M\<^sup>2 \<le> (x ! d0 - q ! d0)\<^sup>2"
    by (simp only: abs_le_square_iff)
  also from d0(1) have "\<dots> \<le> sq_dist dm x q" by (rule sq_dist_ge)
  finally have "M\<^sup>2 \<le> sq_dist dm x q" .
  moreover from False have "min_pt_dist_to_node indet dm q node = M\<^sup>2"
    unfolding M_def min_pt_dist_to_node_eq by (simp only: if_False)
  ultimately show ?thesis by simp
qed

lemma copy_mid_new_mid [simp]: "copy_mid dm (new_mid dm m r n) = new_mid dm m r n"
  by (simp add: copy_mid_def new_mid_def cong: map_cong)

lemma new_mid_copy_mid [simp]: "new_mid dm (copy_mid dm m) r n = new_mid dm m r n"
  by (simp add: copy_mid_def new_mid_def cong: map_cong)


section \<open>Best-first search returns the nearest points\<close>





lemma set_qr_insert [simp]: "set (qr_insert e qr) = insert e (set qr)"
  by (induction qr) auto





















section \<open>A built tree, evaluated\<close>

lemma ex_built: "CompressedQuadtree 1 ex_pts [0, 8] EndBuildFn 10 = Some ex_tree"
  by code_simp



lemma ex_subnodes:
  "subnodes ex_tree =
     [ex_tree,
      Node (Some [Some (Node None [1 / 2] (1 / 2) (Some 0)),
                  Some (Node None [3 / 2] (1 / 2) (Some 1))]) [1] 1 None,
      Node None [1 / 2] (1 / 2) (Some 0), Node None [3 / 2] (1 / 2) (Some 1),
      Node None [6] 2 (Some 2)]"
  by (simp add: ex_tree_def subnodes.simps List.map_filter_def)

section \<open>Claims about the shape of built trees and the termination of the query\<close>

text \<open>
  C2. In a tree the constructor builds with the default \<open>EndBuildFn\<close> from at least one
  point (the constructor's contract), every internal node, that is every node with a child
  array, has at least two present children.
\<close>

theorem built_internal_two_children:
  assumes "CompressedQuadtree dm P rng EndBuildFn fuel = Some t" and "P \<noteq> []"
  shows "\<forall>node\<in>set (subnodes t). nodes node \<noteq> None \<longrightarrow> 2 \<le> length (children node)"
proof -
  from assms(1) obtain m rad where w: "worker dm P EndBuildFn fuel m rad [0..<length P] 0 = Some t"
    by (auto simp: CompressedQuadtree_def split: option.splits)
  from assms(2) have ne: "[0..<length P] \<noteq> []" by simp
  show ?thesis
    by (rule worker_all_nodes[OF w]) (use ne in \<open>simp_all add: EndBuildFn_def\<close>)
qed

theorem built_internal_two_children_witness:
  "CompressedQuadtree 1 ex_pts [0, 8] EndBuildFn 10 = Some ex_tree \<and> ex_pts \<noteq> [] \<and>
   list_all (\<lambda>node. nodes node = None \<or> 2 \<le> length (children node)) (subnodes ex_tree)"
proof -
  have ne: "ex_pts \<noteq> []" by (simp add: ex_pts_def)
  from built_internal_two_children[OF ex_built ne] ex_built ne show ?thesis
    by (auto simp: list_all_iff)
qed

text \<open>
  C10. Every node of a tree built with the default \<open>EndBuildFn\<close> is either a leaf with a
  point and no child array, or an internal node with a child array and no point; so the
  leaf branch of \<open>knn\<close> never follows a null \<open>pt\<close> on such a tree.
\<close>

theorem built_leaf_or_internal:
  assumes "CompressedQuadtree dm P rng EndBuildFn fuel = Some t"
  shows "(\<forall>node\<in>set (subnodes t).
            (nodes node = None \<and> pt node \<noteq> None) \<or> (nodes node \<noteq> None \<and> pt node = None)) \<and>
         (\<forall>indet k p eps. knn indet dm P t k p eps \<noteq> Some (Inl NullPointer))"
proof -
  from assms(1) obtain m rad where w: "worker dm P EndBuildFn fuel m rad [0..<length P] 0 = Some t"
    by (auto simp: CompressedQuadtree_def split: option.splits)
  have shape: "\<forall>node\<in>set (subnodes t).
           (nodes node = None \<and> pt node \<noteq> None) \<or> (nodes node \<noteq> None \<and> pt node = None)"
    by (rule worker_all_nodes[OF w]) (simp_all add: EndBuildFn_def)
  then have "\<forall>node\<in>set (subnodes t). nodes node = None \<longrightarrow> pt node \<noteq> None"
    by blast
  from knn_no_null[OF this] shape show ?thesis by blast
qed

theorem built_leaf_or_internal_witness:
  "CompressedQuadtree 1 ex_pts [0, 8] EndBuildFn 10 = Some ex_tree \<and>
   list_all (\<lambda>node. (nodes node = None \<and> pt node \<noteq> None) \<or> (nodes node \<noteq> None \<and> pt node = None))
     (subnodes ex_tree) \<and>
   knn (\<lambda>c d. 0) 1 ex_pts ex_tree 2 [3] 0 \<noteq> Some (Inl NullPointer)"
  using built_leaf_or_internal[OF ex_built] ex_built
  by (auto simp: list_all_iff)

text \<open>
  C9. The loop of \<open>knn\<close> terminates on every tree, for every \<open>k\<close>, query point and
  \<open>eps\<close>: the model of the loop returns a value (a result list or one of the two faults),
  whatever value the bound reads from its unassigned local.
\<close>

theorem knn_terminates: "\<exists>r. knn indet dm P t k p eps = Some r"
proof -
  have "\<exists>r. knn_loop indet dm P k p eps [(t, 0)] [] = Some r \<and> True"
    by (rule knn_loop_rule[where I = "\<lambda>pq qr. True"]) simp_all
  then show ?thesis by (simp add: knn_def)
qed

text \<open>
  C7. The list \<open>knn\<close> returns on a built tree is non-decreasing in its squared-distance
  component, and has at most \<open>k\<close> and at most \<open>n\<close> entries.
\<close>

theorem knn_sorted_at_most_k_n:
  assumes "CompressedQuadtree dm P rng fn fuel = Some t"
    and "knn indet dm P t k p eps = Some (Inr qr)"
  shows "sorted (map snd qr) \<and> length qr \<le> k \<and> length qr \<le> length P"
proof -
  from assms(1) obtain m rad where w: "worker dm P fn fuel m rad [0..<length P] 0 = Some t"
    by (auto simp: CompressedQuadtree_def split: option.splits)
  from worker_leaves[OF w] have "mset (leaves t) \<subseteq># mset [0..<length P]"
    by (rule conjunct1)
  then have "size (mset (leaves t)) \<le> size (mset [0..<length P])"
    by (rule size_mset_mono)
  then have "length (leaves t) \<le> length P"
    by (simp only: size_mset length_upt minus_nat.diff_0)
  with knn_sorted_bounded[OF assms(2)] show ?thesis by simp
qed

lemma ex_knn: "knn (\<lambda>c d. 0) 1 ex_pts ex_tree 2 [3] 0 = Some (Inr [(1, 1), (0, 4)])"
  by (simp add: knn_def knn_loop.simps pq_top_def pq_pop_def children_def List.map_filter_def
      min_pt_dist_to_node_def sq_dist_def DBL_MAX_def ex_tree_def ex_pts_def qr_add_def kth_dist_def
      push_children_def)

theorem knn_sorted_at_most_k_n_witness:
  "CompressedQuadtree 1 ex_pts [0, 8] EndBuildFn 10 = Some ex_tree \<and>
   knn (\<lambda>c d. 0) 1 ex_pts ex_tree 2 [3] 0 = Some (Inr [(1, 1), (0, 4)]) \<and>
   sorted (map snd [(1::nat, 1::real), (0, 4)]) \<and> length [(1::nat, 1::real), (0, 4)] \<le> 2 \<and>
   length [(1::nat, 1::real), (0, 4)] \<le> length ex_pts"
  using knn_sorted_at_most_k_n[OF ex_built ex_knn] ex_built ex_knn
  by simp

section \<open>Claims about regions\<close>

text \<open>
  In exact arithmetic, and when the entries the constructor reads for dimension \<open>d\<close>
  (\<open>range[d*dim]\<close> and \<open>range[d*dim + 1]\<close>) bound the points, every input point is held
  by a leaf of the tree built with the default \<open>EndBuildFn\<close>, and \<open>in_node\<close> holds of
  that point on every leaf that holds it.
\<close>

lemma built_leaf_in_node_exact:
  assumes "CompressedQuadtree dm P rng EndBuildFn fuel = Some t"
    and "\<forall>x\<in>set P. \<forall>d<dm. rng ! (d * dm) \<le> x ! d \<and> x ! d \<le> rng ! (d * dm + 1)"
    and "i < length P"
  shows "(\<exists>leaf\<in>set (subnodes t). nodes leaf = None \<and> pt leaf = Some i) \<and>
         (\<forall>leaf\<in>set (subnodes t). nodes leaf = None \<and> pt leaf = Some i \<longrightarrow> in_node leaf (P ! i) dm)"
proof -
  from assms(1) obtain m rad where w: "worker dm P EndBuildFn fuel m rad [0..<length P] 0 = Some t"
    by (auto simp: CompressedQuadtree_def split: option.splits)
  from worker_leaves[OF w] have "mset (leaves t) = mset [0..<length P]"
    by (simp add: EndBuildFn_def)
  then have "set (leaves t) = set [0..<length P]" by (rule mset_eq_setD)
  with assms(3) have "i \<in> set (leaves t)" by simp
  then have ex: "\<exists>leaf\<in>set (subnodes t). nodes leaf = None \<and> pt leaf = Some i"
    by (simp only: leaves_iff)
  have "in_node leaf (P ! i) dm"
    if "leaf \<in> set (subnodes t)" "nodes leaf = None" "pt leaf = Some i" for leaf
  proof -
    from that(2,3) have "i \<in> set (leaves leaf)" by (simp add: leaves_of_leaf)
    with built_covers[OF assms(1,2)] that(1)
    have "in_region dm (P ! i) (mid leaf) (radius leaf)" by blast
    then show ?thesis by (rule in_region_in_node)
  qed
  with ex show ?thesis by blast
qed

text \<open>
  C8. The claim fails where the constructor misreads the range (C5). With three dimensions
  and the pairs (0, 1), (10, 20), (100, 200), which bound the points (1/4, 12, 120) and
  (3/4, 18, 180), the constructor reads 20 and 100 for dimension 1 and the entries 6 and
  7, past the end of the six-entry array, for dimension 2. With 7 and 9 stored there the
  root has the midpoint (1/2, 60, 8) and the radius 40, the leaf of the first point has
  the midpoint (-39/2, 40, 28) and the radius 20, and \<open>in_node\<close> is false of the point on
  that leaf: on dimension 1, \<open>40 - 20 - 12 = 8\<close> exceeds the tolerance.
\<close>

theorem built_leaf_misses_bounded_point:
  "list_all (\<lambda>x. list_all (\<lambda>d. [0, 1, 10, 20, 100, 200] ! (2 * d) \<le> x ! d \<and>
                               x ! d \<le> [0, 1, 10, 20, 100, 200 :: real] ! (2 * d + 1)) [0..<3])
     [[1 / 4, 12, 120], [3 / 4, 18, 180]] \<and>
   CompressedQuadtree 3 [[1 / 4, 12, 120], [3 / 4, 18, 180]] [0, 1, 10, 20, 100, 200] EndBuildFn 10 = None \<and>
   CompressedQuadtree 3 [[1 / 4, 12, 120], [3 / 4, 18, 180]] [0, 1, 10, 20, 100, 200, 7, 9] EndBuildFn 10 =
     Some (Node (Some [None, None, None, None,
                       Some (Node None [- 39 / 2, 40, 28] 20 (Some 0)),
                       Some (Node None [41 / 2, 40, 28] 20 (Some 1)), None, None])
             [1 / 2, 60, 8] 40 None) \<and>
   in_node (Node None [- 39 / 2, 40, 28] 20 (Some 0)) ([[1 / 4, 12, 120], [3 / 4, 18, 180]] ! 0) 3 = False"
proof -
  have "list_all (\<lambda>x. list_all (\<lambda>d. [0, 1, 10, 20, 100, 200] ! (2 * d) \<le> x ! d \<and>
                               x ! d \<le> [0, 1, 10, 20, 100, 200 :: real] ! (2 * d + 1)) [0..<3])
     [[1 / 4, 12, 120], [3 / 4, 18, 180]]"
    by code_simp
  moreover have "CompressedQuadtree 3 [[1 / 4, 12, 120], [3 / 4, 18, 180]] [0, 1, 10, 20, 100, 200] EndBuildFn 10 = None"
    by code_simp
  moreover have "CompressedQuadtree 3 [[1 / 4, 12, 120], [3 / 4, 18, 180]] [0, 1, 10, 20, 100, 200, 7, 9] EndBuildFn 10 =
     Some (Node (Some [None, None, None, None,
                       Some (Node None [- 39 / 2, 40, 28] 20 (Some 0)),
                       Some (Node None [41 / 2, 40, 28] 20 (Some 1)), None, None])
             [1 / 2, 60, 8] 40 None)"
    by code_simp
  moreover have "in_node (Node None [- 39 / 2, 40, 28] 20 (Some 0)) ([[1 / 4, 12, 120], [3 / 4, 18, 180]] ! 0) 3 = False"
    by code_simp
  ultimately show ?thesis by (intro conjI)
qed

text \<open>
  C4, as the code has it. For every node, every query point and every point that lies
  in the node's region, the value of \<open>min_pt_dist_to_node\<close> is at most the squared
  distance from the query point to that point, as long as the values the function reads
  from its unassigned local (on the dimensions where the query point is inside the
  region) are not negative. The points held by the leaves below a node are such points
  when the node's region contains them.
\<close>

theorem bound_below_distance_in_region:
  assumes "in_region dm x (mid node) (radius node)"
    and "\<forall>d<dm. outside node q d \<or> 0 \<le> indet d"
  shows "min_pt_dist_to_node indet dm q node \<le> sq_dist dm x q"
  using assms by (rule bound_sound)

theorem bound_below_distance_in_region_witness:
  "Node None [1, 1] 1 (Some 0) \<in> set (subnodes ex2_tree) \<and>
   in_region 2 (ex2_pts ! 0) (mid (Node None [1, 1] 1 (Some 0))) (radius (Node None [1, 1] 1 (Some 0))) \<and>
   list_all (\<lambda>d. outside (Node None [1, 1] 1 (Some 0)) [1, 5] d \<or> 0 \<le> (9 :: real)) [0..<2] \<and>
   outside (Node None [1, 1] 1 (Some 0)) [1, 5] 0 = False \<and>
   outside (Node None [1, 1] 1 (Some 0)) [1, 5] 1 \<and>
   min_pt_dist_to_node (\<lambda>d. 9) 2 [1, 5] (Node None [1, 1] 1 (Some 0)) = 9 \<and>
   sq_dist 2 (ex2_pts ! 0) [1, 5] = 16 \<and>
   min_pt_dist_to_node (\<lambda>d. 9) 2 [1, 5] (Node None [1, 1] 1 (Some 0)) \<le> sq_dist 2 (ex2_pts ! 0) [1, 5]"
proof -
  let ?n = "Node None [1, 1] 1 (Some 0)"
  have s: "?n \<in> set (subnodes ex2_tree)"
    by (simp add: ex2_tree_def subnodes.simps List.map_filter_def)
  have r: "in_region 2 (ex2_pts ! 0) (mid ?n) (radius ?n)"
    by (simp add: in_region_def ex2_pts_def less_Suc_eq numeral_2_eq_2)
  have i: "\<forall>d<2. outside ?n [1, 5] d \<or> 0 \<le> (\<lambda>d. 9 :: real) d"
    by simp
  have o: "outside ?n [1, 5] 0 = False" "outside ?n [1, 5] 1"
    by (simp_all add: outside_def)
  have b: "min_pt_dist_to_node (\<lambda>d. 9) 2 [1, 5] ?n = 9"
    by (simp add: min_pt_dist_to_node_def DBL_MAX_def upt_0_2)
  have d: "sq_dist 2 (ex2_pts ! 0) [1, 5] = 16"
    by (simp add: sq_dist_def ex2_pts_def upt_0_2)
  from bound_below_distance_in_region[OF r i] s r o b d
  show ?thesis by (simp add: list_all_iff)
qed

text \<open>
  The points held below a node need not lie in its region. The constructor takes the
  range as it is given: with the range \<open>[0, 1]\<close> and the points -100 and 100, the leaf of
  the point 100 has the region \<open>[1/2, 1]\<close>, and the bound from the query point 100 is
  \<open>99\<^sup>2\<close>, for a distance 0.
\<close>

theorem bound_above_distance_out_of_range:
  "CompressedQuadtree 1 [[-100], [100]] [0, 1] EndBuildFn 10 =
     Some (Node (Some [Some (Node None [1 / 4] (1 / 4) (Some 0)),
                       Some (Node None [3 / 4] (1 / 4) (Some 1))]) [1 / 2] (1 / 2) None) \<and>
   leaves (Node None [3 / 4] (1 / 4) (Some 1)) = [1] \<and>
   min_pt_dist_to_node (\<lambda>d. 0) 1 [100] (Node None [3 / 4] (1 / 4) (Some 1)) = 9801 \<and>
   sq_dist 1 ([[-100], [100]] ! 1) [100] = 0"
proof -
  have "CompressedQuadtree 1 [[-100], [100]] [0, 1] EndBuildFn 10 =
     Some (Node (Some [Some (Node None [1 / 4] (1 / 4) (Some 0)),
                       Some (Node None [3 / 4] (1 / 4) (Some 1))]) [1 / 2] (1 / 2) None)"
    by code_simp
  moreover have "min_pt_dist_to_node (\<lambda>d. 0) 1 [100] (Node None [3 / 4] (1 / 4) (Some 1)) = 9801"
    by (simp add: min_pt_dist_to_node_def DBL_MAX_def)
  moreover have "sq_dist 1 ([[-100], [100]] ! 1) [100] = 0"
    by (simp add: sq_dist_def)
  ultimately show ?thesis by simp
qed

text \<open>
  The program does not determine the value read from the unassigned local. Read as a
  negative number, it gives a bound above the distance to a point of the region.
\<close>

theorem bound_reads_unassigned_dist:
  "in_region 2 [1, 1] (mid (Node None [1, 1] 1 (Some 0))) (radius (Node None [1, 1] 1 (Some 0))) \<and>
   min_pt_dist_to_node (\<lambda>d. - 10) 2 [1, 5] (Node None [1, 1] 1 (Some 0)) = 100 \<and>
   sq_dist 2 [1, 1] [1, 5] = 16"
  by (simp add: min_pt_dist_to_node_def DBL_MAX_def sq_dist_def in_region_def upt_0_2 less_Suc_eq numeral_2_eq_2)

text \<open>
  C5. The constructor reads the pair of dimension \<open>d\<close> at \<open>range[d*dim]\<close> and
  \<open>range[d*dim + 1]\<close>. With three dimensions and the pairs (0, 1), (10, 20), (100, 200)
  it reads 20 and 100 for dimension 1 and the entries 6 and 7, past the end of the array,
  for dimension 2; with entries 7 and 9 there, the midpoint is (1/2, 60, 8) and the radius
  40, not the (1/2, 15, 150) and 50 of the three pairs. With two dimensions the pairs are
  read as they are listed.
\<close>

theorem root_region_reads_stride_dim:
  "root_region 3 [0, 1, 10, 20, 100, 200] = None \<and>
   root_region 3 [0, 1, 10, 20, 100, 200, 7, 9] = Some ([1 / 2, 60, 8], 40) \<and>
   root_region 2 [0, 1, 10, 20] = Some ([1 / 2, 15], 5)"
  by code_simp




section \<open>The claim about exact search\<close>






text \<open>
  The program does not determine the value read from the unassigned local. Read as
  \<open>- (10 ^ 200)\<close>, it makes the bounds of the leaves of (1, 1) and (3, 3) exceed
  \<open>DBL_MAX\<close>, and the search from (3, 1/2) returns the farthest point, (1, 3), not the
  nearest, (1, 1).
\<close>

theorem knn_reads_unassigned_dist:
  "knn (\<lambda>c d. - (10 ^ 200)) 2 ex2_pts ex2_tree 1 [3, 1 / 2] 0 = Some (Inr [(2, 41 / 4)]) \<and>
   brute_force_knn 2 ex2_pts 1 [3, 1 / 2] = [0]"
proof -
  have "knn (\<lambda>c d. - (10 ^ 200)) 2 ex2_pts ex2_tree 1 [3, 1 / 2] 0 = Some (Inr [(2, 41 / 4)])"
    by (simp add: knn_def knn_loop.simps pq_top_def pq_pop_def children_def List.map_filter_def
      min_pt_dist_to_node_def sq_dist_def DBL_MAX_def qr_add_def kth_dist_def push_children_def
      ex2_tree_def ex2_pts_def upt_0_2)
  moreover have "brute_force_knn 2 ex2_pts 1 [3, 1 / 2] = [0]"
    by (simp add: brute_force_knn_def ex2_pts_def sq_dist_def upt_0_2 upt_rec[of 0 3] upt_rec[of 1 3] upt_rec[of 2 3])
  ultimately show ?thesis by simp
qed

text \<open>
  A point outside the region of a node above it can be missed, with every value read
  from the unassigned local non-negative. The range is the unit square, the points are
  (-5, 3/10), (1/10, 1/10) and (-101/20, 6/10), the query point is (-51/10, 3/10). The
  first two points are below the node of the region \<open>[0, 1/2] \<times> [0, 1/2]\<close>, whose bound is
  1 when 1 is read on the dimension where the query point is inside; the third point is
  found first, at the squared distance 37/400, and the search stops at that node, whose
  first point is at the squared distance 1/100.
\<close>

theorem knn_misses_point_outside_region:
  "CompressedQuadtree 2 [[- 5, 3 / 10], [1 / 10, 1 / 10], [- 101 / 20, 6 / 10]] [0, 1, 0, 1] EndBuildFn 10 =
     Some (Node (Some [Some (Node (Some [Some (Node None [1 / 8, 1 / 8] (1 / 8) (Some 1)), None,
                                         Some (Node None [1 / 8, 3 / 8] (1 / 8) (Some 0)), None])
                               [1 / 4, 1 / 4] (1 / 4) None),
                       None, Some (Node None [1 / 4, 3 / 4] (1 / 4) (Some 2)), None])
             [1 / 2, 1 / 2] (1 / 2) None) \<and>
   knn (\<lambda>c d. 1) 2 [[- 5, 3 / 10], [1 / 10, 1 / 10], [- 101 / 20, 6 / 10]]
     (Node (Some [Some (Node (Some [Some (Node None [1 / 8, 1 / 8] (1 / 8) (Some 1)), None,
                                    Some (Node None [1 / 8, 3 / 8] (1 / 8) (Some 0)), None])
                          [1 / 4, 1 / 4] (1 / 4) None),
                  None, Some (Node None [1 / 4, 3 / 4] (1 / 4) (Some 2)), None])
        [1 / 2, 1 / 2] (1 / 2) None)
     1 [- 51 / 10, 3 / 10] 0 = Some (Inr [(2, 37 / 400)]) \<and>
   brute_force_knn 2 [[- 5, 3 / 10], [1 / 10, 1 / 10], [- 101 / 20, 6 / 10]] 1 [- 51 / 10, 3 / 10] = [0] \<and>
   sq_dist 2 ([[- 5, 3 / 10], [1 / 10, 1 / 10], [- 101 / 20, 6 / 10]] ! 0) [- 51 / 10, 3 / 10] = 1 / 100"
proof -
  have "CompressedQuadtree 2 [[- 5, 3 / 10], [1 / 10, 1 / 10], [- 101 / 20, 6 / 10]] [0, 1, 0, 1] EndBuildFn 10 =
     Some (Node (Some [Some (Node (Some [Some (Node None [1 / 8, 1 / 8] (1 / 8) (Some 1)), None,
                                         Some (Node None [1 / 8, 3 / 8] (1 / 8) (Some 0)), None])
                               [1 / 4, 1 / 4] (1 / 4) None),
                       None, Some (Node None [1 / 4, 3 / 4] (1 / 4) (Some 2)), None])
             [1 / 2, 1 / 2] (1 / 2) None)"
    by code_simp
  moreover have "knn (\<lambda>c d. 1) 2 [[- 5, 3 / 10], [1 / 10, 1 / 10], [- 101 / 20, 6 / 10]]
     (Node (Some [Some (Node (Some [Some (Node None [1 / 8, 1 / 8] (1 / 8) (Some 1)), None,
                                    Some (Node None [1 / 8, 3 / 8] (1 / 8) (Some 0)), None])
                          [1 / 4, 1 / 4] (1 / 4) None),
                  None, Some (Node None [1 / 4, 3 / 4] (1 / 4) (Some 2)), None])
        [1 / 2, 1 / 2] (1 / 2) None)
     1 [- 51 / 10, 3 / 10] 0 = Some (Inr [(2, 37 / 400)])"
    by (simp add: knn_def knn_loop.simps pq_top_def pq_pop_def children_def List.map_filter_def
      min_pt_dist_to_node_def sq_dist_def DBL_MAX_def qr_add_def kth_dist_def push_children_def upt_0_2)
  moreover have "brute_force_knn 2 [[- 5, 3 / 10], [1 / 10, 1 / 10], [- 101 / 20, 6 / 10]] 1 [- 51 / 10, 3 / 10] = [0]"
    by (simp add: brute_force_knn_def sq_dist_def upt_0_2 upt_rec[of 0 3] upt_rec[of 1 3] upt_rec[of 2 3])
  moreover have "sq_dist 2 ([[- 5, 3 / 10], [1 / 10, 1 / 10], [- 101 / 20, 6 / 10]] ! 0) [- 51 / 10, 3 / 10] = 1 / 100"
    by (simp add: sq_dist_def upt_0_2)
  ultimately show ?thesis by (intro conjI)
qed

end
